theory Spec2Isabelle
  imports Complex_Main "HOL-Library.Word" "HOL-Library.Char_ord" "HOL-Library.List_Lexorder"
    "HOL-Library.Multiset" "HOL-Library.Sublist" "HOL-Library.AList"
    "HOL-Library.Code_Target_Numeral"
begin

unbundle bit_operations_syntax

section \<open>The CBZ converter (main.go)\<close>

text \<open>
  The converter turns every immediate subfolder of an input directory into one zip archive
  (\<open>.cbz\<close>) that holds the folder's image files. This theory embeds main.go function by
  function: the command line checks, the directory scan, the content sniffing, the archive
  writer, the worker pool and the final report. The operating system and the Go standard
  library (\<open>os\<close>, \<open>path/filepath\<close>, \<open>net/http\<close>, \<open>archive/zip\<close>) are modelled as far as the
  program uses them.
\<close>

subsection \<open>Errors\<close>

text \<open>
  Go errors are values. The operating system errors that the model can produce are listed
  by their errno names; \<open>EOF\<close> is \<open>io.EOF\<close>; \<open>SkipDir\<close> and \<open>SkipAll\<close> are the
  sentinels of \<open>filepath.WalkDir\<close>. \<open>Errorf msg\<close> is \<open>fmt.Errorf(msg)\<close> and
  \<open>Wrapf msg err\<close> is \<open>fmt.Errorf(msg + "%w", err)\<close>.
\<close>

datatype error =
    ENOENT | EACCES | EIO | EISDIR | ENOTDIR | EOF | SkipDir | SkipAll
  | Errorf string
  | Wrapf string error


subsection \<open>The file system\<close>

text \<open>
  The file system is a tree. A directory lists its entries by name, in the order in which
  the operating system happens to enumerate them. A regular file is its bytes; \<open>NoAccess\<close>
  is a regular file that cannot be opened (permission denied), \<open>Faulty\<close> a regular file that
  opens but whose reads fail (an I/O error), \<open>NoAccessDir\<close> a directory that cannot be read or
  searched. \<open>Zip\<close> is an archive as written by \<open>archive/zip\<close>: the list of its members.
  Symbolic links are not modelled.

  A path is the list of its components below the file system root; the string the program
  holds for it is \<open>path_string\<close>. The program only ever builds paths with
  \<open>filepath.Join(dir, name)\<close>, which appends one component.
\<close>

type_synonym byte = "8 word"
type_synonym path = "string list"

record zip_file =
  Name :: string
  Method :: nat
  Content :: "byte list"

datatype node =
    File "byte list"
  | NoAccess
  | Faulty
  | Zip "zip_file list"
  | Dir "(string \<times> node) list"
  | NoAccessDir

definition IsDir :: "node \<Rightarrow> bool" where
  "IsDir n = (case n of Dir _ \<Rightarrow> True | NoAccessDir \<Rightarrow> True | _ \<Rightarrow> False)"

text \<open>Path resolution: only a readable directory can be descended into.\<close>

fun lookup :: "node \<Rightarrow> path \<Rightarrow> node option" where
  "lookup n [] = Some n"
| "lookup n (c # p) =
     (case n of
        Dir es \<Rightarrow> (case map_of es c of None \<Rightarrow> None | Some m \<Rightarrow> lookup m p)
      | _ \<Rightarrow> None)"

definition os_Stat :: "node \<Rightarrow> path \<Rightarrow> error + node" where
  "os_Stat fs p = (case lookup fs p of None \<Rightarrow> Inl ENOENT | Some n \<Rightarrow> Inr n)"

definition os_Lstat :: "node \<Rightarrow> path \<Rightarrow> error + node" where
  "os_Lstat fs p = os_Stat fs p"

text \<open>\<open>os.ReadDir\<close> returns the entries of a directory sorted by file name.\<close>

definition ReadDir :: "node \<Rightarrow> error + (string \<times> node) list" where
  "ReadDir n =
     (case n of
        Dir es \<Rightarrow> Inr (sort_key fst es)
      | NoAccessDir \<Rightarrow> Inl EACCES
      | _ \<Rightarrow> Inl ENOTDIR)"


text \<open>
  \<open>os.Open\<close> gives a handle on what the path denotes; a directory can be opened, only
  reading from it fails. \<open>file_bytes\<close> is what reading a handle to its end delivers
  (\<open>io.Copy\<close>), \<open>file_Read f n\<close> is one \<open>Read\<close> into a buffer of \<open>n\<close> bytes on a fresh handle:
  the bytes stored and the error, \<open>io.EOF\<close> when the file is empty.
\<close>

definition os_Open :: "node \<Rightarrow> path \<Rightarrow> error + node" where
  "os_Open fs p =
     (case lookup fs p of
        None \<Rightarrow> Inl ENOENT
      | Some NoAccess \<Rightarrow> Inl EACCES
      | Some NoAccessDir \<Rightarrow> Inl EACCES
      | Some f \<Rightarrow> Inr f)"

text \<open>
  Of the bytes of an archive only the leading signature is modelled: the local file header
  signature of the first member, or the end-of-central-directory record of an empty archive.
\<close>

definition zip_bytes :: "zip_file list \<Rightarrow> byte list" where
  "zip_bytes es =
     (if es = [] then [0x50, 0x4B, 0x05, 0x06] @ replicate 18 0 else [0x50, 0x4B, 0x03, 0x04])"

definition file_bytes :: "node \<Rightarrow> error + byte list" where
  "file_bytes f =
     (case f of
        File bs \<Rightarrow> Inr bs
      | Zip es \<Rightarrow> Inr (zip_bytes es)
      | Faulty \<Rightarrow> Inl EIO
      | NoAccess \<Rightarrow> Inl EACCES
      | Dir _ \<Rightarrow> Inl EISDIR
      | NoAccessDir \<Rightarrow> Inl EISDIR)"

definition file_Read :: "node \<Rightarrow> nat \<Rightarrow> byte list \<times> error option" where
  "file_Read f n =
     (case file_bytes f of
        Inl err \<Rightarrow> ([], Some err)
      | Inr bs \<Rightarrow> if bs = [] \<and> 0 < n then ([], Some EOF) else (take n bs, None))"

text \<open>
  \<open>put fs p v\<close> stores the regular file \<open>v\<close> at \<open>p\<close>: it replaces a regular file that
  is there, or adds an entry to the parent directory. \<open>os.Create\<close> stores the empty file
  (it creates or truncates).
\<close>

fun put :: "node \<Rightarrow> path \<Rightarrow> node \<Rightarrow> error + node" where
  "put n [] v =
     (case n of
        Dir _ \<Rightarrow> Inl EISDIR
      | NoAccessDir \<Rightarrow> Inl EISDIR
      | NoAccess \<Rightarrow> Inl EACCES
      | _ \<Rightarrow> Inr v)"
| "put n (c # p) v =
     (case n of
        Dir es \<Rightarrow>
          (case map_of es c of
             None \<Rightarrow> if p = [] then Inr (Dir (AList.update c v es)) else Inl ENOENT
           | Some m \<Rightarrow>
               (case put m p v of
                  Inl err \<Rightarrow> Inl err
                | Inr m' \<Rightarrow> Inr (Dir (AList.update c m' es))))
      | NoAccessDir \<Rightarrow> Inl EACCES
      | _ \<Rightarrow> Inl ENOTDIR)"

definition os_Create :: "node \<Rightarrow> path \<Rightarrow> error + node" where
  "os_Create fs p = put fs p (File [])"


subsection \<open>Path strings (path/filepath)\<close>

text \<open>
  The separator is that of a Unix system, where \<open>filepath.ToSlash\<close> returns its argument.
  \<open>path_string\<close> is the absolute, clean path name; Go compares strings byte by byte, which
  is the order of \<open>string\<close> here. \<open>Rel\<close> is \<open>filepath.Rel\<close> on two absolute clean
  paths: the common prefix is dropped and every remaining component of the base becomes
  \<open>..\<close>; on such paths it has no error case.
\<close>

definition Separator :: char where
  "Separator = CHR ''/''"

fun join_names :: "string list \<Rightarrow> string" where
  "join_names [] = []"
| "join_names [c] = c"
| "join_names (c # cs) = c @ Separator # join_names cs"

definition path_string :: "path \<Rightarrow> string" where
  "path_string p = Separator # join_names p"

definition Base :: "path \<Rightarrow> string" where
  "Base p = (if p = [] then [Separator] else last p)"

fun rel_names :: "path \<Rightarrow> path \<Rightarrow> string list" where
  "rel_names (b # bs) (t # ts) =
     (if b = t then rel_names bs ts else replicate (length (b # bs)) ''..'' @ t # ts)"
| "rel_names bs [] = replicate (length bs) ''..''"
| "rel_names [] ts = ts"

definition Rel :: "path \<Rightarrow> path \<Rightarrow> error + string" where
  "Rel basepath targpath =
     (let r = rel_names basepath targpath in Inr (if r = [] then ''.'' else join_names r))"

definition ToSlash :: "string \<Rightarrow> string" where
  "ToSlash s = (if Separator = CHR ''/'' then s
                else map (\<lambda>c. if c = Separator then CHR ''/'' else c) s)"

definition sort_Strings :: "string list \<Rightarrow> string list" where
  "sort_Strings xs = sort xs"

text \<open>\<open>sort.Strings\<close> on a list of path names: the paths ordered by their strings.\<close>

definition sort_paths :: "path list \<Rightarrow> path list" where
  "sort_paths ps = sort_key path_string ps"

subsection \<open>filepath.WalkDir\<close>

text \<open>
  The callback gets the path, the directory entry (absent when the root could not be
  examined) and the error of the walk, and returns its error; the variables it captures are
  threaded through as \<open>'a\<close>.
  \<^verbatim>\<open>
  func walkDir(path string, d fs.DirEntry, walkDirFn fs.WalkDirFunc) error {
      if err := walkDirFn(path, d, nil); err != nil || !d.IsDir() {
          if err == SkipDir && d.IsDir() { err = nil }
          return err
      }
      dirs, err := os.ReadDir(path)
      if err != nil {
          err = walkDirFn(path, d, err)
          if err != nil {
              if err == SkipDir && d.IsDir() { err = nil }
              return err
          }
      }
      for _, d1 := range dirs {
          path1 := Join(path, d1.Name())
          if err := walkDir(path1, d1, walkDirFn); err != nil {
              if err == SkipDir { break }
              return err
          }
      }
      return nil
  }
  \<close>
\<close>

type_synonym 'a WalkDirFunc =
  "path \<Rightarrow> node option \<Rightarrow> error option \<Rightarrow> 'a \<Rightarrow> error option \<times> 'a"

function (sequential) walkDir :: "'a WalkDirFunc \<Rightarrow> path \<Rightarrow> node \<Rightarrow> 'a \<Rightarrow> error option \<times> 'a"
  and walkDirs :: "'a WalkDirFunc \<Rightarrow> path \<Rightarrow> (string \<times> node) list \<Rightarrow> 'a \<Rightarrow> error option \<times> 'a"
where
  "walkDir fn path d acc =
     (case fn path (Some d) None acc of
        (Some err, acc1) \<Rightarrow>
          (if err = SkipDir \<and> IsDir d then (None, acc1) else (Some err, acc1))
      | (None, acc1) \<Rightarrow>
          if \<not> IsDir d then (None, acc1)
          else (case ReadDir d of
                  Inr dirs \<Rightarrow> walkDirs fn path dirs acc1
                | Inl rerr \<Rightarrow>
                    (case fn path (Some d) (Some rerr) acc1 of
                       (Some err, acc2) \<Rightarrow>
                         (if err = SkipDir \<and> IsDir d then (None, acc2) else (Some err, acc2))
                     | (None, acc2) \<Rightarrow> (None, acc2))))"
| "walkDirs fn path [] acc = (None, acc)"
| "walkDirs fn path (d1 # dirs) acc =
     (case walkDir fn (path @ [fst d1]) (snd d1) acc of
        (Some err, acc1) \<Rightarrow> (if err = SkipDir then (None, acc1) else (Some err, acc1))
      | (None, acc1) \<Rightarrow> walkDirs fn path dirs acc1)"
  by pat_completeness auto

definition walk_measure ::
  "('a WalkDirFunc \<times> path \<times> node \<times> 'a) + ('a WalkDirFunc \<times> path \<times> (string \<times> node) list \<times> 'a) \<Rightarrow> nat"
where
  "walk_measure x =
     (case x of
        Inl (fn, p, d, acc) \<Rightarrow> 2 * size d
      | Inr (fn, p, ds, acc) \<Rightarrow> 2 * size_list (size_prod (\<lambda>_. 0) size) ds + 1)"

lemma size_list_sort_key: "size_list f (sort_key k xs) = size_list f xs"
proof -
  have "sum_list (map f (sort_key k xs)) = sum_mset (mset (map f (sort_key k xs)))"
    by (simp only: sum_mset_sum_list)
  also have "\<dots> = sum_mset (mset (map f xs))"
    by simp
  also have "\<dots> = sum_list (map f xs)"
    by (simp only: sum_mset_sum_list)
  finally show ?thesis
    by (simp add: size_list_conv_sum_list)
qed

lemma ReadDir_size:
  "ReadDir d = Inr dirs \<Longrightarrow> size_list (size_prod (\<lambda>_. 0) size) dirs < size d"
  by (cases d) (auto simp: ReadDir_def size_list_sort_key)

termination walkDir
  by (relation "measure walk_measure") (auto simp: walk_measure_def dest: ReadDir_size)

declare walkDir.simps [simp del]

text \<open>
  \<^verbatim>\<open>
  func WalkDir(root string, fn fs.WalkDirFunc) error {
      info, err := os.Lstat(root)
      if err != nil {
          err = fn(root, nil, err)
      } else {
          err = walkDir(root, fs.FileInfoToDirEntry(info), fn)
      }
      if err == SkipDir || err == SkipAll { return nil }
      return err
  }
  \<close>
\<close>

definition WalkDir :: "node \<Rightarrow> path \<Rightarrow> 'a WalkDirFunc \<Rightarrow> 'a \<Rightarrow> error option \<times> 'a" where
  "WalkDir fs rt fn acc =
     (case (case os_Lstat fs rt of
              Inl err \<Rightarrow> fn rt None (Some err) acc
            | Inr info \<Rightarrow> walkDir fn rt info acc) of
        (Some err, acc1) \<Rightarrow>
          if err = SkipDir \<or> err = SkipAll then (None, acc1) else (Some err, acc1)
      | (None, acc1) \<Rightarrow> (None, acc1))"

subsection \<open>Content sniffing (http.DetectContentType)\<close>

text \<open>
  \<open>http.DetectContentType\<close> looks at no more than the first 512 bytes of its argument and
  returns the content type of the first signature of its table that matches, or
  \<open>application/octet-stream\<close>. The table and the five kinds of signature are those of
  \<open>net/http/sniff.go\<close>.
\<close>

definition bytes_of :: "string \<Rightarrow> byte list" where
  "bytes_of s = map of_char s"

definition sniffLen :: nat where
  "sniffLen = 512"

definition isWS :: "byte \<Rightarrow> bool" where
  "isWS b = (b = 0x09 \<or> b = 0x0A \<or> b = 0x0C \<or> b = 0x0D \<or> b = 0x20)"

definition isTT :: "byte \<Rightarrow> bool" where
  "isTT b = (b = 0x20 \<or> b = 0x3E)"

datatype sniffSig =
    htmlSig "byte list"
  | maskedSig "byte list" "byte list" bool string
  | exactSig "byte list" string
  | mp4Sig
  | textSig

text \<open>An upper case letter of an HTML signature matches either case of the data byte.\<close>

definition html_byte_ok :: "byte \<Rightarrow> byte \<Rightarrow> bool" where
  "html_byte_ok b db = (b = (if 0x41 \<le> b \<and> b \<le> 0x5A then db AND 0xDF else db))"

definition Uint32 :: "byte list \<Rightarrow> nat" where
  "Uint32 bs = foldl (\<lambda>a b. a * 256 + unat b) 0 (take 4 bs)"

definition is_binary_byte :: "byte \<Rightarrow> bool" where
  "is_binary_byte b =
     (b \<le> 0x08 \<or> b = 0x0B \<or> (0x0E \<le> b \<and> b \<le> 0x1A) \<or> (0x1C \<le> b \<and> b \<le> 0x1F))"

text \<open>
  \<open>match sig data firstNonWS\<close> is the content type, or the empty string when the
  signature does not match. The arguments of \<open>maskedSig\<close> are the mask, the pattern, the
  \<open>skipWS\<close> flag and the content type.
\<close>

fun match :: "sniffSig \<Rightarrow> byte list \<Rightarrow> nat \<Rightarrow> string" where
  "match (exactSig sig ct) data firstNonWS = (if prefix sig data then ct else [])"
| "match (maskedSig msk pat skipWS ct) data firstNonWS =
     (let data = (if skipWS then drop firstNonWS data else data) in
      if length pat \<noteq> length msk then []
      else if length data < length pat then []
      else if map2 (AND) (take (length pat) data) msk = pat then ct
      else [])"
| "match (htmlSig h) data firstNonWS =
     (let data = drop firstNonWS data in
      if length data < length h + 1 then []
      else if \<not> list_all2 html_byte_ok h (take (length h) data) then []
      else if \<not> isTT (data ! length h) then []
      else ''text/html; charset=utf-8'')"
| "match mp4Sig data firstNonWS =
     (if length data < 12 then []
      else let boxSize = Uint32 data in
        if length data < boxSize \<or> boxSize mod 4 \<noteq> 0 then []
        else if take 4 (drop 4 data) \<noteq> bytes_of ''ftyp'' then []
        else if \<exists>st \<in> set (map (\<lambda>k. 8 + 4 * k) [0 ..< (boxSize - 8) div 4]).
                  st \<noteq> 12 \<and> take 3 (drop st data) = bytes_of ''mp4''
             then ''video/mp4''
        else [])"
| "match textSig data firstNonWS =
     (if \<exists>b \<in> set (drop firstNonWS data). is_binary_byte b then []
      else ''text/plain; charset=utf-8'')"

definition sniffSignatures :: "sniffSig list" where
  "sniffSignatures =
    [htmlSig (bytes_of ''<!DOCTYPE HTML''),
     htmlSig (bytes_of ''<HTML''),
     htmlSig (bytes_of ''<HEAD''),
     htmlSig (bytes_of ''<SCRIPT''),
     htmlSig (bytes_of ''<IFRAME''),
     htmlSig (bytes_of ''<H1''),
     htmlSig (bytes_of ''<DIV''),
     htmlSig (bytes_of ''<FONT''),
     htmlSig (bytes_of ''<TABLE''),
     htmlSig (bytes_of ''<A''),
     htmlSig (bytes_of ''<STYLE''),
     htmlSig (bytes_of ''<TITLE''),
     htmlSig (bytes_of ''<B''),
     htmlSig (bytes_of ''<BODY''),
     htmlSig (bytes_of ''<BR''),
     htmlSig (bytes_of ''<P''),
     htmlSig (bytes_of ''<!--''),
     maskedSig [0xFF, 0xFF, 0xFF, 0xFF, 0xFF] (bytes_of ''<?xml'') True ''text/xml; charset=utf-8'',
     exactSig (bytes_of ''%PDF-'') ''application/pdf'',
     exactSig (bytes_of ''%!PS-Adobe-'') ''application/postscript'',
     maskedSig [0xFF, 0xFF, 0x00, 0x00] [0xFE, 0xFF, 0x00, 0x00] False
       ''text/plain; charset=utf-16be'',
     maskedSig [0xFF, 0xFF, 0x00, 0x00] [0xFF, 0xFE, 0x00, 0x00] False
       ''text/plain; charset=utf-16le'',
     maskedSig [0xFF, 0xFF, 0xFF, 0x00] [0xEF, 0xBB, 0xBF, 0x00] False
       ''text/plain; charset=utf-8'',
     exactSig [0x00, 0x00, 0x01, 0x00] ''image/x-icon'',
     exactSig [0x00, 0x00, 0x02, 0x00] ''image/x-icon'',
     exactSig (bytes_of ''BM'') ''image/bmp'',
     exactSig (bytes_of ''GIF87a'') ''image/gif'',
     exactSig (bytes_of ''GIF89a'') ''image/gif'',
     exactSig [0x89, 0x50, 0x4E, 0x47, 0x0D, 0x0A, 0x1A, 0x0A] ''image/png'',
     exactSig [0xFF, 0xD8, 0xFF] ''image/jpeg'',
     maskedSig [0xFF, 0xFF, 0xFF, 0xFF, 0x00, 0x00, 0x00, 0x00, 0xFF, 0xFF, 0xFF, 0xFF, 0xFF, 0xFF]
       (bytes_of ''RIFF'' @ [0, 0, 0, 0] @ bytes_of ''WEBPVP'') False ''image/webp'',
     maskedSig [0xFF, 0xFF, 0xFF, 0xFF, 0x00, 0x00, 0x00, 0x00, 0xFF, 0xFF, 0xFF, 0xFF]
       (bytes_of ''FORM'' @ [0, 0, 0, 0] @ bytes_of ''AIFF'') False ''audio/aiff'',
     maskedSig [0xFF, 0xFF, 0xFF] (bytes_of ''ID3'') False ''audio/mpeg'',
     maskedSig [0xFF, 0xFF, 0xFF, 0xFF, 0xFF] (bytes_of ''OggS'' @ [0]) False ''application/ogg'',
     maskedSig [0xFF, 0xFF, 0xFF, 0xFF, 0xFF, 0xFF, 0xFF, 0xFF]
       (bytes_of ''MThd'' @ [0, 0, 0, 6]) False ''audio/midi'',
     maskedSig [0xFF, 0xFF, 0xFF, 0xFF, 0x00, 0x00, 0x00, 0x00, 0xFF, 0xFF, 0xFF, 0xFF]
       (bytes_of ''RIFF'' @ [0, 0, 0, 0] @ bytes_of ''AVI '') False ''video/avi'',
     maskedSig [0xFF, 0xFF, 0xFF, 0xFF, 0x00, 0x00, 0x00, 0x00, 0xFF, 0xFF, 0xFF, 0xFF]
       (bytes_of ''RIFF'' @ [0, 0, 0, 0] @ bytes_of ''WAVE'') False ''audio/wave'',
     mp4Sig,
     exactSig [0x1A, 0x45, 0xDF, 0xA3] ''video/webm'',
     maskedSig (replicate 34 0x00 @ [0xFF, 0xFF]) (replicate 34 0x00 @ bytes_of ''LP'') False
       ''application/vnd.ms-fontobject'',
     exactSig [0x00, 0x01, 0x00, 0x00] ''font/ttf'',
     exactSig (bytes_of ''OTTO'') ''font/otf'',
     exactSig (bytes_of ''ttcf'') ''font/collection'',
     exactSig (bytes_of ''wOFF'') ''font/woff'',
     exactSig (bytes_of ''wOF2'') ''font/woff2'',
     exactSig [0x1F, 0x8B, 0x08] ''application/x-gzip'',
     exactSig (bytes_of ''PK'' @ [0x03, 0x04]) ''application/zip'',
     exactSig (bytes_of ''Rar!'' @ [0x1A, 0x07, 0x00]) ''application/x-rar-compressed'',
     exactSig (bytes_of ''Rar!'' @ [0x1A, 0x07, 0x01, 0x00]) ''application/x-rar-compressed'',
     exactSig [0x00, 0x61, 0x73, 0x6D] ''application/wasm'',
     textSig]"

fun first_match :: "sniffSig list \<Rightarrow> byte list \<Rightarrow> nat \<Rightarrow> string" where
  "first_match [] data firstNonWS = ''application/octet-stream''"
| "first_match (sig # sigs) data firstNonWS =
     (let ct = match sig data firstNonWS in
      if ct \<noteq> [] then ct else first_match sigs data firstNonWS)"

definition DetectContentType :: "byte list \<Rightarrow> string" where
  "DetectContentType data =
     (let data = take sniffLen data;
          firstNonWS = length (takeWhile isWS data)
      in first_match sniffSignatures data firstNonWS)"

definition HasPrefix :: "string \<Rightarrow> string \<Rightarrow> bool" where
  "HasPrefix s pre = prefix pre s"

text \<open>
  The content type that a signature gives when it matches; the signatures of the table
  whose content type is an image type; and the data on which one of them matches, written
  out byte by byte.
\<close>

fun sig_label :: "sniffSig \<Rightarrow> string" where
  "sig_label (exactSig sig ct) = ct"
| "sig_label (maskedSig msk pat skipWS ct) = ct"
| "sig_label (htmlSig h) = ''text/html; charset=utf-8''"
| "sig_label mp4Sig = ''video/mp4''"
| "sig_label textSig = ''text/plain; charset=utf-8''"

definition image_sigs :: "sniffSig list" where
  "image_sigs =
    [exactSig [0x00, 0x00, 0x01, 0x00] ''image/x-icon'',
     exactSig [0x00, 0x00, 0x02, 0x00] ''image/x-icon'',
     exactSig [0x42, 0x4D] ''image/bmp'',
     exactSig [0x47, 0x49, 0x46, 0x38, 0x37, 0x61] ''image/gif'',
     exactSig [0x47, 0x49, 0x46, 0x38, 0x39, 0x61] ''image/gif'',
     exactSig [0x89, 0x50, 0x4E, 0x47, 0x0D, 0x0A, 0x1A, 0x0A] ''image/png'',
     exactSig [0xFF, 0xD8, 0xFF] ''image/jpeg'',
     maskedSig [0xFF, 0xFF, 0xFF, 0xFF, 0x00, 0x00, 0x00, 0x00, 0xFF, 0xFF, 0xFF, 0xFF, 0xFF, 0xFF]
       [0x52, 0x49, 0x46, 0x46, 0, 0, 0, 0, 0x57, 0x45, 0x42, 0x50, 0x56, 0x50] False ''image/webp'']"

definition is_image_shape :: "byte list \<Rightarrow> bool" where
  "is_image_shape data \<longleftrightarrow>
     prefix [0x00, 0x00, 0x01, 0x00] data
   \<or> prefix [0x00, 0x00, 0x02, 0x00] data
   \<or> prefix [0x42, 0x4D] data
   \<or> prefix [0x47, 0x49, 0x46, 0x38, 0x37, 0x61] data
   \<or> prefix [0x47, 0x49, 0x46, 0x38, 0x39, 0x61] data
   \<or> prefix [0x89, 0x50, 0x4E, 0x47, 0x0D, 0x0A, 0x1A, 0x0A] data
   \<or> prefix [0xFF, 0xD8, 0xFF] data
   \<or> (\<exists>a b c d rest. data = 0x52 # 0x49 # 0x46 # 0x46 # a # b # c # d
            # 0x57 # 0x45 # 0x42 # 0x50 # 0x56 # 0x50 # rest)"

subsection \<open>isImageFile (lines 324-346)\<close>

text \<open>
  \<^verbatim>\<open>
  file, err := os.Open(filePath)
  if err != nil { return false, err }
  defer file.Close()
  buffer := make([]byte, 512)
  _, err = file.Read(buffer)
  if err != nil && err != io.EOF { return false, err }
  mimeType := http.DetectContentType(buffer)
  return strings.HasPrefix(mimeType, "image/"), nil
  \<close>
  \<open>make\<close> gives 512 zero bytes and \<open>Read\<close> overwrites the first ones with what it
  read. The number of bytes read is dropped, and the whole buffer is sniffed:
  \<open>buffer_after bs\<close> is the buffer once \<open>Read\<close> has stored \<open>bs\<close>.
\<close>

definition buffer_after :: "byte list \<Rightarrow> byte list" where
  "buffer_after bs = bs @ replicate (512 - length bs) 0"

definition isImageFile :: "node \<Rightarrow> path \<Rightarrow> error + bool" where
  "isImageFile fs filePath =
     (case os_Open fs filePath of
        Inl err \<Rightarrow> Inl err
      | Inr file \<Rightarrow>
          (case file_Read file 512 of
             (bs, rerr) \<Rightarrow>
               (case (case rerr of Some err \<Rightarrow> if err \<noteq> EOF then Some err else None
                                 | None \<Rightarrow> None) of
                  Some err \<Rightarrow> Inl err
                | None \<Rightarrow>
                    let buffer = buffer_after bs;
                        mimeType = DetectContentType buffer
                    in Inr (HasPrefix mimeType ''image/''))))"

subsection \<open>analyzeDirectory (lines 280-322)\<close>

text \<open>
  The callback of the walk appends to the two lists that analyzeDirectory declares; they
  are the state threaded through the walk. A walk error is passed on; a directory is left to
  the walk; a file whose type cannot be determined goes to the image list, as an image
  does; any other file goes to the other list by its base name.
\<close>

type_synonym contents = "path list \<times> string list"

definition visit :: "node \<Rightarrow> contents WalkDirFunc" where
  "visit fs path d err acc =
     (case acc of (imageFiles, nonImageFiles) \<Rightarrow>
        (case err of
           Some e \<Rightarrow> (Some e, acc)
         | None \<Rightarrow>
             if (case d of Some n \<Rightarrow> IsDir n | None \<Rightarrow> False) then (None, acc)
             else (case isImageFile fs path of
                     Inl _ \<Rightarrow> (None, (imageFiles @ [path], nonImageFiles))
                   | Inr isImage \<Rightarrow>
                       if isImage then (None, (imageFiles @ [path], nonImageFiles))
                       else (None, (imageFiles, nonImageFiles @ [Base path])))))"

definition analyzeDirectory :: "node \<Rightarrow> path \<Rightarrow> error + contents" where
  "analyzeDirectory fs dir =
     (case WalkDir fs dir (visit fs) ([], []) of
        (Some err, _) \<Rightarrow> Inl err
      | (None, (imageFiles, nonImageFiles)) \<Rightarrow>
          Inr (sort_paths imageFiles, sort_Strings nonImageFiles))"

subsection \<open>addFileToZip and convertToCBZ (lines 248-278, 348-391)\<close>

text \<open>
  The zip writer is the list of the members written so far. \<open>zip.FileInfoHeader\<close> names
  the member by the base name of the file and leaves the method at \<open>Store\<close>; the program
  then sets the name and the method. \<open>CreateHeader\<close> appends the member, \<open>io.Copy\<close>
  fills in its content; when the copy fails the member stays, without content. File names
  hold no separator, so the names given here never end in a slash (\<open>CreateHeader\<close> would
  take such a name for a directory).
\<close>

definition Store :: nat where
  "Store = 0"

definition Deflate :: nat where
  "Deflate = 8"

definition FileInfoHeader :: "path \<Rightarrow> zip_file" where
  "FileInfoHeader filePath = \<lparr>Name = Base filePath, Method = Store, Content = []\<rparr>"

definition addFileToZip ::
  "zip_file list \<Rightarrow> node \<Rightarrow> path \<Rightarrow> path \<Rightarrow> zip_file list \<times> error option" where
  "addFileToZip zipWriter fs filePath baseDir =
     (case Rel baseDir filePath of
        Inl err \<Rightarrow> (zipWriter, Some err)
      | Inr relPath \<Rightarrow>
          (case os_Open fs filePath of
             Inl err \<Rightarrow> (zipWriter, Some err)
           | Inr sourceFile \<Rightarrow>
               let header = (FileInfoHeader filePath)\<lparr>Name := ToSlash relPath, Method := Deflate\<rparr>
               in (case file_bytes sourceFile of
                     Inl err \<Rightarrow> (zipWriter @ [header], Some err)
                   | Inr bs \<Rightarrow> (zipWriter @ [header\<lparr>Content := bs\<rparr>], None))))"

text \<open>The loop of convertToCBZ over the image files; it stops at the first error.\<close>

fun addFiles ::
  "zip_file list \<Rightarrow> node \<Rightarrow> path list \<Rightarrow> path \<Rightarrow> zip_file list \<times> error option" where
  "addFiles zipWriter fs [] sourceDir = (zipWriter, None)"
| "addFiles zipWriter fs (imagePath # imageFiles) sourceDir =
     (case addFileToZip zipWriter fs imagePath sourceDir of
        (zw, Some err) \<Rightarrow> (zw, Some err)
      | (zw, None) \<Rightarrow> addFiles zw fs imageFiles sourceDir)"

text \<open>
  The two deferred calls, \<open>zipWriter.Close()\<close> and \<open>cbzFile.Close()\<close>, run on every
  return after the file was created: the archive holds the members written so far. Nothing
  removes the file.
\<close>

definition close_archive :: "node \<Rightarrow> path \<Rightarrow> zip_file list \<Rightarrow> node" where
  "close_archive fs cbzPath zipWriter =
     (case put fs cbzPath (Zip zipWriter) of Inl _ \<Rightarrow> fs | Inr fs' \<Rightarrow> fs')"

definition convertToCBZ :: "node \<Rightarrow> path \<Rightarrow> path \<Rightarrow> (error + nat) \<times> node" where
  "convertToCBZ fs sourceDir cbzPath =
     (case analyzeDirectory fs sourceDir of
        Inl err \<Rightarrow> (Inl (Wrapf ''failed to analyze directory: '' err), fs)
      | Inr (imageFiles, nonImageFiles) \<Rightarrow>
          if length imageFiles = 0 then (Inl (Errorf ''no image files found''), fs)
          else (case os_Create fs cbzPath of
                  Inl err \<Rightarrow> (Inl (Wrapf ''failed to create CBZ file: '' err), fs)
                | Inr fs1 \<Rightarrow>
                    (case addFiles [] fs1 imageFiles sourceDir of
                       (zw, Some err) \<Rightarrow>
                         (Inl (Wrapf ''failed to add file to archive: '' err),
                          close_archive fs1 cbzPath zw)
                     | (zw, None) \<Rightarrow>
                         (Inr (length nonImageFiles), close_archive fs1 cbzPath zw))))"

subsection \<open>Jobs and statistics (WorkItem, ConversionStats, processWorkItem)\<close>

record WorkItem =
  FolderName :: string
  SourcePath :: path
  OutputPath :: path

record ConversionStats =
  Total :: int
  Success :: int
  Errors :: int
  Skipped :: int
  NonImageFiles :: int

text \<open>
  processWorkItem works on the file system and on the shared statistics; each of its three
  updates of a counter is one critical section of the mutex. The worker number only marks
  the log lines and is left out.
\<close>

type_synonym world = "node \<times> ConversionStats"

definition processWorkItem :: "WorkItem \<Rightarrow> world \<Rightarrow> world" where
  "processWorkItem item w =
     (case w of (fs, stats) \<Rightarrow>
        (case os_Stat fs (OutputPath item) of
           Inr _ \<Rightarrow> (fs, stats\<lparr>Skipped := Skipped stats + 1\<rparr>)
         | Inl _ \<Rightarrow>
             (case convertToCBZ fs (SourcePath item) (OutputPath item) of
                (Inl err, fs') \<Rightarrow> (fs', stats\<lparr>Errors := Errors stats + 1\<rparr>)
              | (Inr nonImageCount, fs') \<Rightarrow>
                  (fs', stats\<lparr>Success := Success stats + 1,
                               NonImageFiles := NonImageFiles stats + int nonImageCount\<rparr>))))"


subsection \<open>Thread count validation (main, lines 70-77)\<close>

text \<open>
  \<^verbatim>\<open>
  if *threads < 1 {
      *threads = 1
  } else if *threads > runtime.NumCPU()*2 {
      *threads = runtime.NumCPU() * 2
      logInfo(fmt.Sprintf("Thread count limited to %d (2x CPU cores)", *threads))
  }
  \<close>
  The flag and \<open>runtime.NumCPU()\<close> are Go \<open>int\<close>s. The processor count is the number of
  logical CPUs of the machine, far below the range where doubling it could wrap, so both are
  integers here. The result is the effective thread count and the notice, when one is logged.
\<close>

datatype notice = Thread_count_limited int

definition validateThreads :: "int \<Rightarrow> int \<Rightarrow> int \<times> notice option" where
  "validateThreads threads numCPU =
     (if threads < 1 then (1, None)
      else if threads > numCPU * 2 then (numCPU * 2, Some (Thread_count_limited (numCPU * 2)))
      else (threads, None))"

subsection \<open>The final report (printFinalStats, lines 393-419)\<close>

text \<open>
  The report is the list of lines that printFinalStats logs, in order. The success rate is
  the quotient the source computes on \<open>float64\<close>; it is kept here as the exact real quotient
  (the rounding of the floating point division and of the \<open>%.1f\<close> format is not modelled).
  The division is a function of its own with an error for a zero divisor, so that the report
  shows where it is evaluated: \<open>rate\<close> is only applied under the guard \<open>processed > 0\<close>.
\<close>

datatype report_line =
    Info_completed
  | Info_total int
  | OK_successful int
  | Warn_skipped int
  | Error_errors int
  | Info_non_image int
  | Info_success_rate real

datatype arith_error = Division_by_zero

definition rate :: "int \<Rightarrow> int \<Rightarrow> arith_error + real" where
  "rate succeeded processed =
     (if processed = 0 then Inl Division_by_zero
      else Inr (real_of_int succeeded / real_of_int processed * 100))"

definition printFinalStats :: "ConversionStats \<Rightarrow> arith_error + report_line list" where
  "printFinalStats stats =
     (let ls = [Info_completed, Info_total (Total stats), OK_successful (Success stats)]
            @ (if Skipped stats > 0 then [Warn_skipped (Skipped stats)] else [])
            @ (if Errors stats > 0 then [Error_errors (Errors stats)] else [])
            @ (if NonImageFiles stats > 0 then [Info_non_image (NonImageFiles stats)] else []);
          processed = Success stats + Errors stats
      in if processed > 0
         then (case rate (Success stats) processed of
                 Inl e \<Rightarrow> Inl e
               | Inr successRate \<Rightarrow> Inr (ls @ [Info_success_rate successRate]))
         else Inr ls)"

definition is_rate_line :: "report_line \<Rightarrow> bool" where
  "is_rate_line l = (case l of Info_success_rate _ \<Rightarrow> True | _ \<Rightarrow> False)"

subsection \<open>getFolders, the worker pool and main (lines 79-125, 154-208)\<close>






subsection \<open>Notions of the specification\<close>


fun files_under :: "path \<Rightarrow> node \<Rightarrow> path list" where
  "files_under p (Dir es) = concat (map (\<lambda>e. files_under (p @ [fst e]) (snd e)) es)"
| "files_under p NoAccessDir = []"
| "files_under p n = [p]"

fun walkable :: "node \<Rightarrow> bool" where
  "walkable (Dir es) = list_all (\<lambda>e. walkable (snd e)) es"
| "walkable NoAccessDir = False"
| "walkable n = True"

fun wf_node :: "node \<Rightarrow> bool" where
  "wf_node (Dir es) = (distinct (map fst es) \<and> list_all (\<lambda>e. wf_node (snd e)) es)"
| "wf_node n = True"


definition kept :: "node \<Rightarrow> path \<Rightarrow> bool" where
  "kept fs q = (isImageFile fs q \<noteq> Inr False)"



text \<open>What a walk collects from a list of files, up to the order within each list.\<close>

definition gathers :: "node \<Rightarrow> path list \<Rightarrow> contents \<Rightarrow> contents \<Rightarrow> bool" where
  "gathers fs qs acc acc' \<longleftrightarrow>
     (\<exists>xs ys. acc' = (fst acc @ xs, snd acc @ ys)
        \<and> mset xs = filter_mset (kept fs) (mset qs)
        \<and> mset ys = image_mset Base (filter_mset (\<lambda>q. \<not> kept fs q) (mset qs)))"

definition under_entries :: "path \<Rightarrow> (string \<times> node) list \<Rightarrow> path list" where
  "under_entries p ds = concat (map (\<lambda>e. files_under (p @ [fst e]) (snd e)) ds)"

definition walk_ok :: "node \<Rightarrow> path \<Rightarrow> node \<Rightarrow> bool" where
  "walk_ok fs p d \<longleftrightarrow>
     (\<forall>acc. case walkDir (visit fs) p d acc of
        (r, acc') \<Rightarrow>
          (if walkable d then r = None \<and> gathers fs (files_under p d) acc acc'
           else r = Some EACCES))"

subsection \<open>A sample file system\<close>

text \<open>
  An input directory with four folders and an output directory that already holds the
  archive of the last one: \<open>vol1\<close> mixes two images (one in a subfolder) with an empty file,
  \<open>vol2\<close> holds a file that cannot be read, \<open>vol3\<close> holds no image, \<open>vol4\<close> was converted
  before.
\<close>

definition jpeg_bytes :: "byte list" where
  "jpeg_bytes = [0xFF, 0xD8, 0xFF, 0xE0]"

definition png_bytes :: "byte list" where
  "png_bytes = [0x89, 0x50, 0x4E, 0x47, 0x0D, 0x0A, 0x1A, 0x0A]"

definition vol1 :: node where
  "vol1 = Dir [(''p2.jpg'', File jpeg_bytes),
               (''extras'', Dir [(''p1.png'', File png_bytes)]),
               (''notes.txt'', File [])]"

definition fs_demo :: node where
  "fs_demo =
     Dir [(''in'', Dir [(''vol1'', vol1),
                       (''vol2'', Dir [(''bad'', Faulty)]),
                       (''vol3'', Dir [(''notes.txt'', File [])]),
                       (''vol4'', Dir [(''p.jpg'', File jpeg_bytes)])]),
          (''out'', Dir [(''vol4.cbz'', Zip [\<lparr>Name = ''p.jpg'', Method = Deflate, Content = jpeg_bytes\<rparr>])])]"


text \<open>A file of three bytes, the first three of the icon signature \<open>00 00 01 00\<close>.\<close>

definition fs_short :: node where
  "fs_short = Dir [(''page.dat'', File [0x00, 0x00, 0x01])]"

section \<open>Lemmas\<close>

subsection \<open>The walk\<close>

lemma visit_file:
  "\<not> IsDir d \<Longrightarrow> visit fs p (Some d) None (imgs, nons) =
     (None, if kept fs p then (imgs @ [p], nons) else (imgs, nons @ [Base p]))"
  by (auto simp: visit_def kept_def split: sum.splits)

lemma visit_dir: "IsDir d \<Longrightarrow> visit fs p (Some d) None acc = (None, acc)"
  by (auto simp: visit_def split: prod.splits)

lemma visit_err: "visit fs p d (Some e) acc = (Some e, acc)"
  by (auto simp: visit_def split: prod.splits)

lemma gathers_Nil: "gathers fs [] acc acc"
  by (simp add: gathers_def)

lemma gathers_append:
  assumes "gathers fs qs1 acc acc1" and "gathers fs qs2 acc1 acc2"
  shows "gathers fs (qs1 @ qs2) acc acc2"
proof -
  from assms(1) obtain xs1 ys1 where 1: "acc1 = (fst acc @ xs1, snd acc @ ys1)"
    "mset xs1 = filter_mset (kept fs) (mset qs1)"
    "mset ys1 = image_mset Base (filter_mset (\<lambda>q. \<not> kept fs q) (mset qs1))"
    unfolding gathers_def by blast
  from assms(2) obtain xs2 ys2 where 2: "acc2 = (fst acc1 @ xs2, snd acc1 @ ys2)"
    "mset xs2 = filter_mset (kept fs) (mset qs2)"
    "mset ys2 = image_mset Base (filter_mset (\<lambda>q. \<not> kept fs q) (mset qs2))"
    unfolding gathers_def by blast
  from 1 2 have "acc2 = (fst acc @ (xs1 @ xs2), snd acc @ (ys1 @ ys2))
      \<and> mset (xs1 @ xs2) = filter_mset (kept fs) (mset (qs1 @ qs2))
      \<and> mset (ys1 @ ys2) = image_mset Base (filter_mset (\<lambda>q. \<not> kept fs q) (mset (qs1 @ qs2)))"
    by simp
  then show ?thesis unfolding gathers_def by blast
qed

lemma gathers_mset: "mset qs = mset qs' \<Longrightarrow> gathers fs qs acc acc' = gathers fs qs' acc acc'"
  by (simp add: gathers_def)

lemma gathers_single:
  "gathers fs [p] (imgs, nons) (if kept fs p then (imgs @ [p], nons) else (imgs, nons @ [Base p]))"
  by (simp add: gathers_def)

lemma walk_ok_at:
  assumes "walk_ok fs p d" and "walkDir (visit fs) p d acc = (r, acc')"
  shows "if walkable d then r = None \<and> gathers fs (files_under p d) acc acc' else r = Some EACCES"
proof -
  have "case walkDir (visit fs) p d acc of
       (r, acc') \<Rightarrow> (if walkable d then r = None \<and> gathers fs (files_under p d) acc acc'
                     else r = Some EACCES)"
    using assms(1) unfolding walk_ok_def by (rule spec)
  with assms(2) show ?thesis by simp
qed

lemma walkDirs_visit:
  assumes "\<And>e p. e \<in> set ds \<Longrightarrow> walk_ok fs p (snd e)"
  shows "case walkDirs (visit fs) p ds acc of
       (r, acc') \<Rightarrow> (if list_all (\<lambda>e. walkable (snd e)) ds
                     then r = None \<and> gathers fs (under_entries p ds) acc acc'
                     else r = Some EACCES)"
  using assms
proof (induction ds arbitrary: acc)
  case Nil
  then show ?case by (simp add: under_entries_def gathers_Nil)
next
  case (Cons d ds)
  obtain r acc1 where w: "walkDir (visit fs) (p @ [fst d]) (snd d) acc = (r, acc1)"
    by (cases "walkDir (visit fs) (p @ [fst d]) (snd d) acc")
  have ok: "walk_ok fs (p @ [fst d]) (snd d)" using Cons.prems by simp
  note first = walk_ok_at [OF ok w]
  show ?case
  proof (cases "walkable (snd d)")
    case False
    with first have "r = Some EACCES" by simp
    with w False show ?thesis by simp
  next
    case True
    with first have r: "r = None" and g: "gathers fs (files_under (p @ [fst d]) (snd d)) acc acc1"
      by simp_all
    have ih: "case walkDirs (visit fs) p ds acc1 of
       (r, acc') \<Rightarrow> (if list_all (\<lambda>e. walkable (snd e)) ds
                     then r = None \<and> gathers fs (under_entries p ds) acc1 acc'
                     else r = Some EACCES)"
      using Cons.IH [of acc1] Cons.prems by simp
    have u: "under_entries p (d # ds) = files_under (p @ [fst d]) (snd d) @ under_entries p ds"
      by (simp add: under_entries_def)
    show ?thesis
    proof (cases "list_all (\<lambda>e. walkable (snd e)) ds")
      case False
      with ih w r True show ?thesis by (auto split: prod.splits)
    next
      case all: True
      obtain r2 acc2 where w2: "walkDirs (visit fs) p ds acc1 = (r2, acc2)"
        by (cases "walkDirs (visit fs) p ds acc1")
      with ih all have "r2 = None" and "gathers fs (under_entries p ds) acc1 acc2" by simp_all
      with g have "gathers fs (under_entries p (d # ds)) acc acc2"
        unfolding u by (blast intro: gathers_append)
      with w w2 r True all \<open>r2 = None\<close> show ?thesis by simp
    qed
  qed
qed

lemma mset_under_entries:
  "mset (under_entries p es) = (\<Sum>e \<in># mset es. mset (files_under (p @ [fst e]) (snd e)))"
proof -
  have "mset (under_entries p es) = sum_list (map (\<lambda>e. mset (files_under (p @ [fst e]) (snd e))) es)"
    by (simp add: under_entries_def mset_concat comp_def)
  also have "\<dots> = sum_mset (mset (map (\<lambda>e. mset (files_under (p @ [fst e]) (snd e))) es))"
    by (simp only: sum_mset_sum_list)
  finally show ?thesis by simp
qed

lemma under_entries_sort: "mset (under_entries p (sort_key k es)) = mset (under_entries p es)"
  by (simp add: mset_under_entries)

lemma walkDir_visit: "walk_ok fs p d"
proof (induction d arbitrary: p)
  case (Dir es)
  have sub: "\<And>e p. e \<in> set (sort_key fst es) \<Longrightarrow> walk_ok fs p (snd e)"
  proof -
    fix e :: "string \<times> node" and p
    assume "e \<in> set (sort_key fst es)"
    then have "e \<in> set es" by simp
    moreover have "snd e \<in> Basic_BNFs.snds e" by (cases e) simp
    ultimately show "walk_ok fs p (snd e)" using Dir.IH by blast
  qed
  have la: "list_all (\<lambda>e. walkable (snd e)) (sort_key fst es) = list_all (\<lambda>e. walkable (snd e)) es"
    by (simp add: list_all_iff)
  have fu: "files_under p (Dir es) = under_entries p es"
    by (simp add: under_entries_def)
  show ?case
    unfolding walk_ok_def
  proof
    fix acc
    show "case walkDir (visit fs) p (Dir es) acc of
       (r, acc') \<Rightarrow> (if walkable (Dir es) then r = None \<and> gathers fs (files_under p (Dir es)) acc acc'
                     else r = Some EACCES)"
      using walkDirs_visit [of "sort_key fst es" fs p acc, OF sub]
      by (auto simp: walkDir.simps visit_dir IsDir_def ReadDir_def la fu
          gathers_mset [OF under_entries_sort] simp del: files_under.simps split: prod.splits)
  qed
next
  case NoAccessDir
  show ?case
    by (simp add: walk_ok_def walkDir.simps visit_dir visit_err IsDir_def ReadDir_def)
next
  case (File bs)
  show ?case
    by (auto simp: walk_ok_def walkDir.simps visit_file IsDir_def gathers_single)
next
  case NoAccess
  show ?case
    by (auto simp: walk_ok_def walkDir.simps visit_file IsDir_def gathers_single)
next
  case Faulty
  show ?case
    by (auto simp: walk_ok_def walkDir.simps visit_file IsDir_def gathers_single)
next
  case (Zip es)
  show ?case
    by (auto simp: walk_ok_def walkDir.simps visit_file IsDir_def gathers_single)
qed

lemma walkDir_visit_cases:
  assumes "walkDir (visit fs) p d acc = (r, acc')"
  shows "if walkable d then r = None \<and> gathers fs (files_under p d) acc acc' else r = Some EACCES"
  using walkDir_visit assms by (rule walk_ok_at)

subsection \<open>The scan\<close>

lemma analyzeDirectory_missing: "lookup fs dir = None \<Longrightarrow> analyzeDirectory fs dir = Inl ENOENT"
  by (simp add: analyzeDirectory_def WalkDir_def os_Lstat_def os_Stat_def visit_err)

lemma analyzeDirectory_unwalkable:
  assumes "lookup fs dir = Some n" and "\<not> walkable n"
  shows "analyzeDirectory fs dir = Inl EACCES"
proof -
  obtain r acc' where w: "walkDir (visit fs) dir n ([], []) = (r, acc')"
    by (cases "walkDir (visit fs) dir n ([], [])")
  from walkDir_visit_cases [OF w] assms(2) have "r = Some EACCES" by simp
  with assms(1) w show ?thesis
    by (simp add: analyzeDirectory_def WalkDir_def os_Lstat_def os_Stat_def)
qed

lemma analyzeDirectory_walkable:
  assumes "lookup fs dir = Some n" and "walkable n"
  shows "\<exists>xs ys. analyzeDirectory fs dir = Inr (sort_paths xs, sort_Strings ys)
          \<and> mset xs = filter_mset (kept fs) (mset (files_under dir n))
          \<and> mset ys = image_mset Base (filter_mset (\<lambda>q. \<not> kept fs q) (mset (files_under dir n)))"
proof -
  obtain r acc' where w: "walkDir (visit fs) dir n ([], []) = (r, acc')"
    by (cases "walkDir (visit fs) dir n ([], [])")
  from walkDir_visit_cases [OF w] assms(2)
  have r: "r = None" and g: "gathers fs (files_under dir n) ([], []) acc'" by simp_all
  from g obtain xs ys where acc': "acc' = (xs, ys)"
    and xs: "mset xs = filter_mset (kept fs) (mset (files_under dir n))"
    and ys: "mset ys = image_mset Base (filter_mset (\<lambda>q. \<not> kept fs q) (mset (files_under dir n)))"
    by (auto simp: gathers_def)
  have "analyzeDirectory fs dir = Inr (sort_paths xs, sort_Strings ys)"
    using assms(1) w r acc' by (simp add: analyzeDirectory_def WalkDir_def os_Lstat_def os_Stat_def)
  with xs ys show ?thesis by blast
qed

lemma analyzeDirectory_Inr:
  assumes "analyzeDirectory fs dir = Inr (imgs, nons)"
  shows "\<exists>n. lookup fs dir = Some n \<and> walkable n
          \<and> sorted (map path_string imgs) \<and> sorted nons
          \<and> mset imgs = filter_mset (kept fs) (mset (files_under dir n))
          \<and> mset nons = image_mset Base (filter_mset (\<lambda>q. \<not> kept fs q) (mset (files_under dir n)))"
proof (cases "lookup fs dir")
  case None
  with assms show ?thesis by (simp add: analyzeDirectory_missing)
next
  case (Some n)
  show ?thesis
  proof (cases "walkable n")
    case False
    with Some assms show ?thesis by (simp add: analyzeDirectory_unwalkable)
  next
    case True
    from analyzeDirectory_walkable [OF Some True] assms
    obtain xs ys where "imgs = sort_paths xs" "nons = sort_Strings ys"
      and "mset xs = filter_mset (kept fs) (mset (files_under dir n))"
      and "mset ys = image_mset Base (filter_mset (\<lambda>q. \<not> kept fs q) (mset (files_under dir n)))"
      by auto
    with Some True show ?thesis
      by (simp add: sort_paths_def sort_Strings_def)
  qed
qed

subsection \<open>Paths and the tree\<close>

lemma lookup_append:
  "lookup fs (p @ q) = (case lookup fs p of None \<Rightarrow> None | Some n \<Rightarrow> lookup n q)"
  by (induction p arbitrary: fs) (auto split: node.splits option.splits)

lemma files_under_lookup:
  "wf_node n \<Longrightarrow> q \<in> set (files_under p n) \<Longrightarrow>
     \<exists>rel m. q = p @ rel \<and> lookup n rel = Some m \<and> \<not> IsDir m"
proof (induction p n arbitrary: q rule: files_under.induct)
  case (1 p es)
  from "1.prems"(2) obtain e where e: "e \<in> set es" and q: "q \<in> set (files_under (p @ [fst e]) (snd e))"
    by auto
  from "1.prems"(1) e have wf: "wf_node (snd e)" and d: "distinct (map fst es)"
    by (auto simp: list_all_iff)
  from "1.IH" [OF e wf q] obtain rel m where
    rel: "q = (p @ [fst e]) @ rel" "lookup (snd e) rel = Some m" "\<not> IsDir m" by blast
  from d e have "map_of es (fst e) = Some (snd e)" by (cases e) simp
  with rel have "q = p @ (fst e # rel)" "lookup (Dir es) (fst e # rel) = Some m" by simp_all
  with rel(3) show ?case by blast
qed (auto simp: IsDir_def)

lemma files_under_nondir: "\<not> IsDir n \<Longrightarrow> files_under p n = [p]"
  by (cases n) (simp_all add: IsDir_def)

lemma lookup_files_under:
  "lookup n rel = Some m \<Longrightarrow> \<not> IsDir m \<Longrightarrow> walkable n \<Longrightarrow> p @ rel \<in> set (files_under p n)"
proof (induction rel arbitrary: n p)
  case Nil
  then have "n = m" by simp
  with Nil.prems(2) show ?case by (simp add: files_under_nondir)
next
  case (Cons c rel)
  from Cons.prems(1) obtain es n' where n: "n = Dir es" and c: "map_of es c = Some n'"
    and l: "lookup n' rel = Some m"
    by (auto split: node.splits option.splits)
  from c have mem: "(c, n') \<in> set es" by (rule map_of_SomeD)
  with Cons.prems(3) n have "walkable n'" by (auto simp: list_all_iff)
  from Cons.IH [OF l Cons.prems(2) this, of "p @ [c]"]
  have "p @ c # rel \<in> set (files_under (p @ [c]) n')" by simp
  with mem n show ?case by force
qed

lemma wf_lookup: "wf_node fs \<Longrightarrow> lookup fs p = Some n \<Longrightarrow> wf_node n"
proof (induction p arbitrary: fs)
  case Nil
  then show ?case by simp
next
  case (Cons c p)
  from Cons.prems(2) obtain es m where fs: "fs = Dir es" and m: "map_of es c = Some m"
    and l: "lookup m p = Some n"
    by (auto split: node.splits option.splits)
  from m have "(c, m) \<in> set es" by (rule map_of_SomeD)
  with Cons.prems(1) fs have "wf_node m" by (auto simp: list_all_iff)
  from Cons.IH [OF this l] show ?case .
qed

lemma put_lookup_same: "put fs p v = Inr fs' \<Longrightarrow> lookup fs' p = Some v"
proof (induction p arbitrary: fs fs')
  case Nil
  then show ?case by (auto split: node.splits)
next
  case (Cons c p)
  from Cons.prems obtain es where fs: "fs = Dir es"
    by (auto split: node.splits)
  show ?case
  proof (cases "map_of es c")
    case None
    with Cons.prems fs have "p = []" "fs' = Dir (AList.update c v es)"
      by (auto split: if_splits)
    then show ?thesis by (simp add: update_conv')
  next
    case (Some m)
    with Cons.prems fs obtain m' where m': "put m p v = Inr m'" and fs': "fs' = Dir (AList.update c m' es)"
      by (auto split: sum.splits)
    from Cons.IH [OF m'] fs' show ?thesis by (simp add: update_conv')
  qed
qed

lemma put_overwrite:
  "lookup fs p = Some (File bs) \<Longrightarrow> \<exists>fs'. put fs p v = Inr fs'"
proof (induction p arbitrary: fs)
  case Nil
  then show ?case by simp
next
  case (Cons c p)
  from Cons.prems obtain es m where fs: "fs = Dir es" and m: "map_of es c = Some m"
    and l: "lookup m p = Some (File bs)"
    by (auto split: node.splits option.splits)
  from Cons.IH [OF l] obtain m' where "put m p v = Inr m'" by blast
  with fs m show ?case by simp
qed

lemma put_preserves:
  "put fs p v = Inr fs' \<Longrightarrow> lookup fs p = None \<Longrightarrow> lookup fs q = Some m \<Longrightarrow> \<not> IsDir m
     \<Longrightarrow> lookup fs' q = Some m"
proof (induction p arbitrary: fs fs' q)
  case Nil
  then show ?case by simp
next
  case (Cons c p)
  from Cons.prems(1) obtain es where fs: "fs = Dir es"
    by (auto split: node.splits)
  show ?case
  proof (cases q)
    case Nil
    with Cons.prems(3) fs have "m = Dir es" by simp
    with Cons.prems(4) show ?thesis by (simp add: IsDir_def)
  next
    case q: (Cons d q')
    show ?thesis
    proof (cases "d = c")
      case False
      with Cons.prems(1,3) fs q show ?thesis
        by (auto simp: update_conv' split: option.splits if_splits sum.splits)
    next
      case True
      with Cons.prems(3) fs q obtain n where n: "map_of es c = Some n" and ln: "lookup n q' = Some m"
        by (auto split: option.splits)
      from Cons.prems(1) fs n obtain n' where n': "put n p v = Inr n'"
        and fs': "fs' = Dir (AList.update c n' es)"
        by (auto split: sum.splits)
      from Cons.prems(2) fs n have "lookup n p = None" by simp
      from Cons.IH [OF n' this ln Cons.prems(4)] have "lookup n' q' = Some m" .
      with fs' q True show ?thesis by (simp add: update_conv')
    qed
  qed
qed

lemma close_archive_after_create:
  assumes "os_Create fs cbz = Inr fs1"
  shows "lookup (close_archive fs1 cbz zw) cbz = Some (Zip zw)"
proof -
  from assms have "lookup fs1 cbz = Some (File [])"
    unfolding os_Create_def by (rule put_lookup_same)
  from put_overwrite [OF this] obtain fs2 where p: "put fs1 cbz (Zip zw) = Inr fs2" by blast
  then have "lookup fs2 cbz = Some (Zip zw)" by (rule put_lookup_same)
  with p show ?thesis by (simp add: close_archive_def)
qed

subsection \<open>Path strings\<close>

lemma ToSlash_id: "ToSlash s = s"
  by (simp add: ToSlash_def Separator_def)









subsection \<open>The archive\<close>




lemma convertToCBZ_cases:
  "convertToCBZ fs src cbz = (res, fs') \<Longrightarrow>
     (\<exists>err. analyzeDirectory fs src = Inl err
         \<and> res = Inl (Wrapf ''failed to analyze directory: '' err) \<and> fs' = fs)
   \<or> (\<exists>nons. analyzeDirectory fs src = Inr ([], nons)
         \<and> res = Inl (Errorf ''no image files found'') \<and> fs' = fs)
   \<or> (\<exists>imgs nons err. analyzeDirectory fs src = Inr (imgs, nons) \<and> imgs \<noteq> []
         \<and> os_Create fs cbz = Inl err
         \<and> res = Inl (Wrapf ''failed to create CBZ file: '' err) \<and> fs' = fs)
   \<or> (\<exists>imgs nons fs1 zw err. analyzeDirectory fs src = Inr (imgs, nons) \<and> imgs \<noteq> []
         \<and> os_Create fs cbz = Inr fs1 \<and> addFiles [] fs1 imgs src = (zw, Some err)
         \<and> res = Inl (Wrapf ''failed to add file to archive: '' err)
         \<and> fs' = close_archive fs1 cbz zw)
   \<or> (\<exists>imgs nons fs1 zw. analyzeDirectory fs src = Inr (imgs, nons) \<and> imgs \<noteq> []
         \<and> os_Create fs cbz = Inr fs1 \<and> addFiles [] fs1 imgs src = (zw, None)
         \<and> res = Inr (length nons) \<and> fs' = close_archive fs1 cbz zw)"
  by (auto simp: convertToCBZ_def split: sum.splits prod.splits if_splits option.splits)

subsection \<open>The counters\<close>




lemma skip_existing:
  "lookup fs (OutputPath item) = Some info \<Longrightarrow>
     processWorkItem item (fs, st) = (fs, st\<lparr>Skipped := Skipped st + 1\<rparr>)"
  by (simp add: processWorkItem_def os_Stat_def)

lemma skip_all_existing:
  "\<forall>item \<in> set items. lookup fs (OutputPath item) \<noteq> None \<Longrightarrow>
     fold processWorkItem items (fs, st) = (fs, st\<lparr>Skipped := Skipped st + int (length items)\<rparr>)"
proof (induction items arbitrary: st)
  case Nil
  then show ?case by simp
next
  case (Cons item items)
  from Cons.prems obtain info where "lookup fs (OutputPath item) = Some info" by auto
  then have "processWorkItem item (fs, st) = (fs, st\<lparr>Skipped := Skipped st + 1\<rparr>)"
    by (rule skip_existing)
  moreover from Cons.prems have "\<forall>item \<in> set items. lookup fs (OutputPath item) \<noteq> None" by simp
  from Cons.IH [OF this, of "st\<lparr>Skipped := Skipped st + 1\<rparr>"]
  have "fold processWorkItem items (fs, st\<lparr>Skipped := Skipped st + 1\<rparr>)
      = (fs, st\<lparr>Skipped := Skipped st + 1 + int (length items)\<rparr>)" by simp
  ultimately show ?case by (simp add: algebra_simps)
qed

subsection \<open>Sniffing\<close>

lemma replicate_pos: "0 < n \<Longrightarrow> replicate n x = x # replicate (n - 1) x"
  by (cases n) simp_all

lemmas sniff_defs = DetectContentType_def sniffLen_def sniffSignatures_def isWS_def bytes_of_def
  html_byte_ok_def Let_def

lemma detect_jpeg: "DetectContentType (0xFF # 0xD8 # 0xFF # rest) = ''image/jpeg''"
  by (simp add: sniff_defs)

lemma detect_png:
  "DetectContentType (0x89 # 0x50 # 0x4E # 0x47 # 0x0D # 0x0A # 0x1A # 0x0A # rest) = ''image/png''"
  by (simp add: sniff_defs)

lemma detect_gif87: "DetectContentType (0x47 # 0x49 # 0x46 # 0x38 # 0x37 # 0x61 # rest) = ''image/gif''"
  by (simp add: sniff_defs)

lemma detect_gif89: "DetectContentType (0x47 # 0x49 # 0x46 # 0x38 # 0x39 # 0x61 # rest) = ''image/gif''"
  by (simp add: sniff_defs)

lemma detect_webp:
  "DetectContentType (0x52 # 0x49 # 0x46 # 0x46 # a # b # c # d
      # 0x57 # 0x45 # 0x42 # 0x50 # 0x56 # 0x50 # rest) = ''image/webp''"
  by (simp add: sniff_defs)

lemma detect_icon: "DetectContentType (0 # 0 # 1 # 0 # rest) = ''image/x-icon''"
  by (simp add: sniff_defs)

lemma detect_three_bytes: "DetectContentType [0, 0, 1] = ''application/octet-stream''"
  by (simp add: sniff_defs Uint32_def is_binary_byte_def)

lemma detect_zeros:
  "\<not> HasPrefix (DetectContentType (0 # 0 # 0 # 0 # 0 # 0 # 0 # 0 # rest)) ''image/''"
  by (simp add: sniff_defs HasPrefix_def Uint32_def is_binary_byte_def)

lemma isImageFile_regular:
  "lookup fs p = Some (File bs) \<Longrightarrow>
     isImageFile fs p = Inr (HasPrefix (DetectContentType (buffer_after (take 512 bs))) ''image/'')"
  by (simp add: isImageFile_def os_Open_def file_Read_def file_bytes_def buffer_after_def)

text \<open>
  A file of at least 512 bytes is classified by the content type of its first 512 bytes.
  A readable file that begins with the JPEG, PNG, GIF or WebP signature is classified as
  an image, and a file that holds the text \<open>hello world\<close> is classified as no
  image, whatever their names are.
\<close>

lemma isImageFile_long_file:
  assumes "lookup fs p = Some (File bs)" and "512 \<le> length bs"
  shows "isImageFile fs p = Inr (HasPrefix (DetectContentType (take 512 bs)) ''image/'')"
  using assms(2) by (simp add: isImageFile_regular [OF assms(1)] buffer_after_def)

lemma isImageFile_magic_bytes:
  assumes l: "lookup fs p = Some (File bs)"
    and m: "(\<exists>rest. bs = 0xFF # 0xD8 # 0xFF # rest)
      \<or> (\<exists>rest. bs = 0x89 # 0x50 # 0x4E # 0x47 # 0x0D # 0x0A # 0x1A # 0x0A # rest)
      \<or> (\<exists>rest. bs = 0x47 # 0x49 # 0x46 # 0x38 # 0x37 # 0x61 # rest)
      \<or> (\<exists>rest. bs = 0x47 # 0x49 # 0x46 # 0x38 # 0x39 # 0x61 # rest)
      \<or> (\<exists>a b c d rest. bs = 0x52 # 0x49 # 0x46 # 0x46 # a # b # c # d
              # 0x57 # 0x45 # 0x42 # 0x50 # 0x56 # 0x50 # rest)"
  shows "isImageFile fs p = Inr True"
  using m
  by (auto simp: isImageFile_regular [OF l] buffer_after_def HasPrefix_def
      detect_jpeg detect_png detect_gif87 detect_gif89 detect_webp)

lemma detect_hello:
  "\<not> HasPrefix (DetectContentType
        (0x68 # 0x65 # 0x6C # 0x6C # 0x6F # 0x20 # 0x77 # 0x6F # 0x72 # 0x6C # 0x64 # 0 # rest))
      ''image/''"
  by (simp add: sniff_defs HasPrefix_def Uint32_def is_binary_byte_def)

lemma isImageFile_text_example:
  assumes l: "lookup fs p = Some (File (bytes_of ''hello world''))"
  shows "isImageFile fs p = Inr False"
  by (simp add: isImageFile_regular [OF l] buffer_after_def bytes_of_def replicate_pos detect_hello)

text \<open>
  The content type begins with \<open>image/\<close> exactly when one of the image
  signatures matches. The zero bytes that fill the buffer change that for two files only:
  those that consist of the three bytes 00 00 01 or 00 00 02. Every other regular file is
  classified by the content type of the bytes read from it.
\<close>

lemma match_label: "match sig data n = [] \<or> match sig data n = sig_label sig"
  by (cases sig) (simp_all add: Let_def)

lemma first_match_cases:
  "first_match sigs data n = ''application/octet-stream''
   \<or> (\<exists>sig \<in> set sigs. match sig data n \<noteq> [] \<and> first_match sigs data n = sig_label sig)"
proof (induction sigs)
  case Nil
  then show ?case by simp
next
  case (Cons sig sigs)
  show ?case
  proof (cases "match sig data n = []")
    case True
    with Cons show ?thesis by (auto simp: Let_def)
  next
    case False
    with match_label [of sig data n] show ?thesis by (auto simp: Let_def)
  qed
qed

lemma and_ff: "(x :: byte) AND 0xFF = x"
proof -
  have e: "(0xFF :: byte) = - 1" by simp
  show ?thesis by (subst e) simp
qed

lemma detect_bmp: "DetectContentType (0x42 # 0x4D # rest) = ''image/bmp''"
  by (simp add: sniff_defs)

lemma detect_cursor: "DetectContentType (0 # 0 # 2 # 0 # rest) = ''image/x-icon''"
  by (simp add: sniff_defs)

lemma image_shape_detected:
  "is_image_shape data \<Longrightarrow> HasPrefix (DetectContentType data) ''image/''"
  unfolding is_image_shape_def
  by (elim disjE exE)
    (auto simp: prefix_def HasPrefix_def detect_icon detect_cursor detect_bmp detect_gif87
      detect_gif89 detect_png detect_jpeg detect_webp)

lemma webp_shape:
  assumes "match (maskedSig
          [0xFF, 0xFF, 0xFF, 0xFF, 0x00, 0x00, 0x00, 0x00, 0xFF, 0xFF, 0xFF, 0xFF, 0xFF, 0xFF]
          [0x52, 0x49, 0x46, 0x46, 0, 0, 0, 0, 0x57, 0x45, 0x42, 0x50, 0x56, 0x50] False
          ''image/webp'') data n \<noteq> []"
  shows "\<exists>a b c d rest. data = 0x52 # 0x49 # 0x46 # 0x46 # a # b # c # d
            # 0x57 # 0x45 # 0x42 # 0x50 # 0x56 # 0x50 # rest"
proof -
  from assms have "14 \<le> length data"
    by (simp add: Let_def split: if_splits)
  then obtain x1 x2 x3 x4 x5 x6 x7 x8 x9 x10 x11 x12 x13 x14 rest where
    d: "data = x1 # x2 # x3 # x4 # x5 # x6 # x7 # x8 # x9 # x10 # x11 # x12 # x13 # x14 # rest"
    by (auto simp: Suc_le_length_iff eval_nat_numeral)
  with assms show ?thesis
    by (simp add: and_ff Let_def split: if_splits)
qed

lemma image_labels:
  assumes "sig \<in> set sniffSignatures" and "HasPrefix (sig_label sig) ''image/''"
  shows "sig \<in> set image_sigs"
proof -
  from assms(1) have "sig \<in> set image_sigs \<or> \<not> HasPrefix (sig_label sig) ''image/''"
    unfolding sniffSignatures_def set_simps insert_iff empty_iff
    by (elim disjE) (simp_all add: HasPrefix_def image_sigs_def bytes_of_def)
  with assms(2) show ?thesis by simp
qed

lemma image_sig_shape:
  assumes "sig \<in> set image_sigs" and "match sig d n \<noteq> []"
  shows "is_image_shape d"
proof -
  from assms(1) consider
      (exact) s ct where "sig = exactSig s ct" "prefix s d \<longrightarrow> is_image_shape d"
    | (webp) "sig = maskedSig
          [0xFF, 0xFF, 0xFF, 0xFF, 0x00, 0x00, 0x00, 0x00, 0xFF, 0xFF, 0xFF, 0xFF, 0xFF, 0xFF]
          [0x52, 0x49, 0x46, 0x46, 0, 0, 0, 0, 0x57, 0x45, 0x42, 0x50, 0x56, 0x50] False ''image/webp''"
    unfolding image_sigs_def set_simps insert_iff empty_iff
    by (elim disjE) (simp_all add: is_image_shape_def)
  then show ?thesis
  proof cases
    case exact
    with assms(2) show ?thesis by (simp split: if_splits)
  next
    case webp
    with assms(2) webp_shape [of d n] show ?thesis by (simp add: is_image_shape_def)
  qed
qed

lemma detected_image_shape:
  assumes "HasPrefix (DetectContentType data) ''image/''"
  shows "is_image_shape (take 512 data)"
proof -
  define d where "d = take sniffLen data"
  define n where "n = length (takeWhile isWS d)"
  have dct: "DetectContentType data = first_match sniffSignatures d n"
    by (simp add: DetectContentType_def Let_def d_def n_def)
  from first_match_cases [of sniffSignatures d n] assms
  obtain sig where s: "sig \<in> set sniffSignatures" "match sig d n \<noteq> []"
    "HasPrefix (sig_label sig) ''image/''"
    by (auto simp: dct HasPrefix_def)
  from image_labels [OF s(1,3)] s(2) have "is_image_shape d" by (rule image_sig_shape)
  then show ?thesis by (simp add: d_def sniffLen_def)
qed

lemma image_shape_take: "is_image_shape (take k data) \<Longrightarrow> is_image_shape data"
proof -
  assume a: "is_image_shape (take k data)"
  have p: "prefix s data" if "prefix s (take k data)" for s
    using that take_is_prefix [of k data] by (rule prefix_order.trans)
  have w: "\<exists>rest'. data = xs @ rest'" if "take k data = xs @ rest" for xs rest :: "byte list"
    using that append_take_drop_id [of k data] by (metis append.assoc)
  from a show ?thesis
    unfolding is_image_shape_def
    by (elim disjE exE) (auto dest: p dest!: w [of "_ # _ # _ # _ # _ # _ # _ # _ # _ # _ # _ # _ # _ # [_]", simplified])
qed

lemma image_iff_shape:
  "HasPrefix (DetectContentType data) ''image/'' \<longleftrightarrow> is_image_shape (take 512 data)"
  using detected_image_shape image_shape_detected image_shape_take by blast

lemma prefix_of_padded:
  assumes "prefix s (rd @ replicate k (0 :: byte))" and "0 \<notin> set s"
  shows "prefix s rd"
proof -
  from assms(1) consider "prefix s rd" | us where "s = rd @ us" "prefix us (replicate k (0 :: byte))"
    by (auto simp: prefix_append)
  then show ?thesis
  proof cases
    case 2
    from 2(2) have "set us \<subseteq> {0}"
      using set_mono_prefix by fastforce
    with 2(1) assms(2) have "us = []" by (cases us) auto
    with 2(1) show ?thesis by simp
  qed
qed

lemma icon_of_padded:
  assumes "prefix [0, 0, c, 0] (rd @ replicate k (0 :: byte))" and "rd \<noteq> [0, 0, c]" and "c \<noteq> 0"
  shows "prefix [0, 0, c, 0] rd"
proof -
  from assms(1) consider "prefix [0, 0, c, 0] rd"
    | us where "[0, 0, c, 0] = rd @ us" "prefix us (replicate k (0 :: byte))"
    by (auto simp: prefix_append)
  then show ?thesis
  proof cases
    case 2
    from 2(2) have z: "set us \<subseteq> {0}"
      using set_mono_prefix by fastforce
    from 2(1) z assms(2,3) show ?thesis
      by (auto simp: Cons_eq_append_conv)
  qed
qed

lemma replicate_zero_eq: "replicate k (0 :: byte) = xs \<Longrightarrow> \<forall>x \<in> set xs. x = 0"
  by auto

lemma webp_of_padded:
  assumes "rd @ replicate k (0 :: byte) = 0x52 # 0x49 # 0x46 # 0x46 # a # b # c # d
            # 0x57 # 0x45 # 0x42 # 0x50 # 0x56 # 0x50 # rest"
  shows "\<exists>rest'. rd = 0x52 # 0x49 # 0x46 # 0x46 # a # b # c # d
            # 0x57 # 0x45 # 0x42 # 0x50 # 0x56 # 0x50 # rest'"
  using assms
  by (auto simp: append_eq_Cons_conv dest!: replicate_zero_eq)

lemma shape_of_padded:
  assumes "rd \<noteq> [0, 0, 1]" and "rd \<noteq> [0, 0, 2]"
  shows "is_image_shape (rd @ replicate k 0) \<longleftrightarrow> is_image_shape rd"
proof
  assume "is_image_shape rd"
  then show "is_image_shape (rd @ replicate k 0)"
    unfolding is_image_shape_def by (elim disjE exE) auto
next
  assume "is_image_shape (rd @ replicate k 0)"
  then consider
      (ico) "prefix [0x00, 0x00, 0x01, 0x00] (rd @ replicate k 0)"
    | (cur) "prefix [0x00, 0x00, 0x02, 0x00] (rd @ replicate k 0)"
    | (bmp) "prefix [0x42, 0x4D] (rd @ replicate k 0)"
    | (g87) "prefix [0x47, 0x49, 0x46, 0x38, 0x37, 0x61] (rd @ replicate k 0)"
    | (g89) "prefix [0x47, 0x49, 0x46, 0x38, 0x39, 0x61] (rd @ replicate k 0)"
    | (png) "prefix [0x89, 0x50, 0x4E, 0x47, 0x0D, 0x0A, 0x1A, 0x0A] (rd @ replicate k 0)"
    | (jpg) "prefix [0xFF, 0xD8, 0xFF] (rd @ replicate k 0)"
    | (webp) a b c d rest where "rd @ replicate k 0 = 0x52 # 0x49 # 0x46 # 0x46 # a # b # c # d
            # 0x57 # 0x45 # 0x42 # 0x50 # 0x56 # 0x50 # rest"
    unfolding is_image_shape_def by blast
  then show "is_image_shape rd"
  proof cases
    case ico
    from icon_of_padded [OF ico assms(1)] show ?thesis by (simp add: is_image_shape_def)
  next
    case cur
    from icon_of_padded [OF cur assms(2)] show ?thesis by (simp add: is_image_shape_def)
  next
    case bmp
    from prefix_of_padded [OF bmp] show ?thesis by (simp add: is_image_shape_def)
  next
    case g87
    from prefix_of_padded [OF g87] show ?thesis by (simp add: is_image_shape_def)
  next
    case g89
    from prefix_of_padded [OF g89] show ?thesis by (simp add: is_image_shape_def)
  next
    case png
    from prefix_of_padded [OF png] show ?thesis by (simp add: is_image_shape_def)
  next
    case jpg
    from prefix_of_padded [OF jpg] show ?thesis by (simp add: is_image_shape_def)
  next
    case webp
    from webp_of_padded [OF webp] show ?thesis by (auto simp: is_image_shape_def)
  qed
qed

lemma isImageFile_exact:
  assumes l: "lookup fs p = Some (File bs)"
    and "bs \<noteq> [0x00, 0x00, 0x01]" and "bs \<noteq> [0x00, 0x00, 0x02]"
  shows "isImageFile fs p = Inr (HasPrefix (DetectContentType (take 512 bs)) ''image/'')"
proof (cases "512 \<le> length bs")
  case True
  with l show ?thesis by (rule isImageFile_long_file)
next
  case False
  then have t: "take 512 bs = bs" by simp
  have "HasPrefix (DetectContentType (buffer_after bs)) ''image/''
      \<longleftrightarrow> is_image_shape (take 512 (buffer_after bs))"
    by (rule image_iff_shape)
  also have "take 512 (buffer_after bs) = buffer_after bs"
    using False by (simp add: buffer_after_def)
  also have "is_image_shape (buffer_after bs) \<longleftrightarrow> is_image_shape bs"
    unfolding buffer_after_def using assms(2,3) by (rule shape_of_padded)
  also have "\<dots> \<longleftrightarrow> HasPrefix (DetectContentType bs) ''image/''"
    using image_iff_shape [of bs] t by simp
  finally show ?thesis
    by (simp add: isImageFile_regular [OF l] t)
qed

subsection \<open>The sample file system\<close>

lemma demo_wf: "wf_node fs_demo"
  by (simp add: fs_demo_def vol1_def)

lemma demo_lookup_vol1: "lookup fs_demo [''in'', ''vol1''] = Some vol1"
  by (simp add: fs_demo_def)

lemma demo_p1: "lookup fs_demo [''in'', ''vol1'', ''extras'', ''p1.png''] = Some (File png_bytes)"
  by (simp add: fs_demo_def vol1_def)

lemma demo_p2: "lookup fs_demo [''in'', ''vol1'', ''p2.jpg''] = Some (File jpeg_bytes)"
  by (simp add: fs_demo_def vol1_def)

lemma demo_notes: "lookup fs_demo [''in'', ''vol1'', ''notes.txt''] = Some (File [])"
  by (simp add: fs_demo_def vol1_def)

lemma demo_p1_image: "isImageFile fs_demo [''in'', ''vol1'', ''extras'', ''p1.png''] = Inr True"
  by (simp add: isImageFile_regular [OF demo_p1] png_bytes_def buffer_after_def detect_png HasPrefix_def)

lemma demo_p2_image: "isImageFile fs_demo [''in'', ''vol1'', ''p2.jpg''] = Inr True"
  by (simp add: isImageFile_regular [OF demo_p2] jpeg_bytes_def buffer_after_def detect_jpeg HasPrefix_def)

lemma demo_notes_no_image: "isImageFile fs_demo [''in'', ''vol1'', ''notes.txt''] = Inr False"
  by (simp add: isImageFile_regular [OF demo_notes] buffer_after_def replicate_pos detect_zeros)

lemma demo_analyze_vol1:
  "analyzeDirectory fs_demo [''in'', ''vol1'']
     = Inr ([[''in'', ''vol1'', ''extras'', ''p1.png''], [''in'', ''vol1'', ''p2.jpg'']],
            [''notes.txt''])"
proof -
  have "os_Lstat fs_demo [''in'', ''vol1''] = Inr vol1"
    by (simp add: os_Lstat_def os_Stat_def demo_lookup_vol1 del: lookup.simps)
  then show ?thesis
    by (simp add: analyzeDirectory_def WalkDir_def vol1_def walkDir.simps ReadDir_def visit_def
        IsDir_def demo_p1_image demo_p2_image demo_notes_no_image Base_def sort_paths_def
        sort_Strings_def path_string_def Separator_def)
qed

lemma demo_bad: "isImageFile fs_demo [''in'', ''vol2'', ''bad''] = Inl EIO"
  by (simp add: fs_demo_def isImageFile_def os_Open_def file_Read_def file_bytes_def)

lemma demo_analyze_vol2:
  "analyzeDirectory fs_demo [''in'', ''vol2''] = Inr ([[''in'', ''vol2'', ''bad'']], [])"
proof -
  have "lookup fs_demo [''in'', ''vol2''] = Some (Dir [(''bad'', Faulty)])"
    by (simp add: fs_demo_def)
  then show ?thesis
    by (simp add: analyzeDirectory_def WalkDir_def os_Lstat_def os_Stat_def walkDir.simps ReadDir_def
        visit_def IsDir_def demo_bad sort_paths_def sort_Strings_def)
qed

lemma demo_notes3: "isImageFile fs_demo [''in'', ''vol3'', ''notes.txt''] = Inr False"
proof -
  have "lookup fs_demo [''in'', ''vol3'', ''notes.txt''] = Some (File [])"
    by (simp add: fs_demo_def)
  from isImageFile_regular [OF this] show ?thesis
    by (simp add: buffer_after_def replicate_pos detect_zeros)
qed

lemma demo_analyze_vol3:
  "analyzeDirectory fs_demo [''in'', ''vol3''] = Inr ([], [''notes.txt''])"
proof -
  have "lookup fs_demo [''in'', ''vol3''] = Some (Dir [(''notes.txt'', File [])])"
    by (simp add: fs_demo_def)
  then show ?thesis
    by (simp add: analyzeDirectory_def WalkDir_def os_Lstat_def os_Stat_def walkDir.simps ReadDir_def
        visit_def IsDir_def demo_notes3 sort_paths_def sort_Strings_def Base_def)
qed

lemma demo_fresh: "lookup fs_demo [''out'', ''vol1.cbz''] = None"
  by (simp add: fs_demo_def)

lemma demo_convert_vol1:
  "\<exists>fs'. convertToCBZ fs_demo [''in'', ''vol1''] [''out'', ''vol1.cbz''] = (Inr 1, fs')
     \<and> lookup fs' [''out'', ''vol1.cbz'']
         = Some (Zip [\<lparr>Name = ''extras/p1.png'', Method = Deflate, Content = png_bytes\<rparr>,
                      \<lparr>Name = ''p2.jpg'', Method = Deflate, Content = jpeg_bytes\<rparr>])"
proof -
  have "\<exists>fs1. os_Create fs_demo [''out'', ''vol1.cbz''] = Inr fs1"
    by (simp add: os_Create_def fs_demo_def)
  then obtain fs1 where cr: "os_Create fs_demo [''out'', ''vol1.cbz''] = Inr fs1" ..
  then have pt: "put fs_demo [''out'', ''vol1.cbz''] (File []) = Inr fs1"
    by (simp add: os_Create_def)
  have 1: "os_Open fs1 [''in'', ''vol1'', ''extras'', ''p1.png''] = Inr (File png_bytes)"
    using put_preserves [OF pt demo_fresh demo_p1] by (simp add: os_Open_def IsDir_def)
  have 2: "os_Open fs1 [''in'', ''vol1'', ''p2.jpg''] = Inr (File jpeg_bytes)"
    using put_preserves [OF pt demo_fresh demo_p2] by (simp add: os_Open_def IsDir_def)
  have add: "addFiles [] fs1 [[''in'', ''vol1'', ''extras'', ''p1.png''], [''in'', ''vol1'', ''p2.jpg'']]
        [''in'', ''vol1'']
      = ([\<lparr>Name = ''extras/p1.png'', Method = Deflate, Content = png_bytes\<rparr>,
          \<lparr>Name = ''p2.jpg'', Method = Deflate, Content = jpeg_bytes\<rparr>], None)"
    by (simp add: addFileToZip_def 1 2 Rel_def ToSlash_id FileInfoHeader_def file_bytes_def
        Separator_def)
  have "convertToCBZ fs_demo [''in'', ''vol1''] [''out'', ''vol1.cbz'']
      = (Inr 1, close_archive fs1 [''out'', ''vol1.cbz'']
           [\<lparr>Name = ''extras/p1.png'', Method = Deflate, Content = png_bytes\<rparr>,
            \<lparr>Name = ''p2.jpg'', Method = Deflate, Content = jpeg_bytes\<rparr>])"
    by (simp add: convertToCBZ_def demo_analyze_vol1 cr add del: addFiles.simps)
  with close_archive_after_create [OF cr] show ?thesis by blast
qed

lemma demo_convert_vol2:
  "\<exists>fs'. convertToCBZ fs_demo [''in'', ''vol2''] [''out'', ''vol2.cbz'']
     = (Inl (Wrapf ''failed to add file to archive: '' EIO), fs')"
proof -
  have fresh: "lookup fs_demo [''out'', ''vol2.cbz''] = None"
    by (simp add: fs_demo_def)
  have bad: "lookup fs_demo [''in'', ''vol2'', ''bad''] = Some Faulty"
    by (simp add: fs_demo_def)
  have "\<exists>fs1. os_Create fs_demo [''out'', ''vol2.cbz''] = Inr fs1"
    by (simp add: os_Create_def fs_demo_def)
  then obtain fs1 where cr: "os_Create fs_demo [''out'', ''vol2.cbz''] = Inr fs1" ..
  then have pt: "put fs_demo [''out'', ''vol2.cbz''] (File []) = Inr fs1"
    by (simp add: os_Create_def)
  have 1: "os_Open fs1 [''in'', ''vol2'', ''bad''] = Inr Faulty"
    using put_preserves [OF pt fresh bad] by (simp add: os_Open_def IsDir_def)
  have add: "addFiles [] fs1 [[''in'', ''vol2'', ''bad'']] [''in'', ''vol2'']
      = ([\<lparr>Name = ''bad'', Method = Deflate, Content = []\<rparr>], Some EIO)"
    by (simp add: addFileToZip_def 1 Rel_def ToSlash_id FileInfoHeader_def file_bytes_def)
  show ?thesis
    by (simp add: convertToCBZ_def demo_analyze_vol2 cr add del: addFiles.simps)
qed



section \<open>Theorems\<close>





text \<open>
  C3. When the scan of a job yields an empty image list, conversion fails with the error
  "no image files found" and returns the file system as it was: no file is created at the
  destination, which is opened only after the check. This is so in particular for a folder
  whose files are all classified as no image. The job is then counted as an error.
\<close>

theorem no_images_no_archive:
  "(analyzeDirectory fs src = Inr ([], nons) \<longrightarrow>
      convertToCBZ fs src cbz = (Inl (Errorf ''no image files found''), fs))
   \<and> (lookup fs src = Some n \<and> walkable n
        \<and> (\<forall>q \<in> set (files_under src n). isImageFile fs q = Inr False) \<longrightarrow>
      convertToCBZ fs src cbz = (Inl (Errorf ''no image files found''), fs))
   \<and> (analyzeDirectory fs (SourcePath item) = Inr ([], nons)
        \<and> lookup fs (OutputPath item) = None \<longrightarrow>
      processWorkItem item (fs, st) = (fs, st\<lparr>Errors := Errors st + 1\<rparr>))"
proof (intro conjI impI)
  assume "analyzeDirectory fs src = Inr ([], nons)"
  then show "convertToCBZ fs src cbz = (Inl (Errorf ''no image files found''), fs)"
    by (simp add: convertToCBZ_def)
next
  assume a: "lookup fs src = Some n \<and> walkable n
      \<and> (\<forall>q \<in> set (files_under src n). isImageFile fs q = Inr False)"
  then obtain xs ys where r: "analyzeDirectory fs src = Inr (sort_paths xs, sort_Strings ys)"
    and xs: "mset xs = filter_mset (kept fs) (mset (files_under src n))"
    using analyzeDirectory_walkable [of fs src n] by blast
  from a have "filter_mset (kept fs) (mset (files_under src n)) = {#}"
    by (simp add: kept_def)
  with xs have "xs = []" by simp
  with r show "convertToCBZ fs src cbz = (Inl (Errorf ''no image files found''), fs)"
    by (simp add: convertToCBZ_def sort_paths_def)
next
  assume "analyzeDirectory fs (SourcePath item) = Inr ([], nons)
      \<and> lookup fs (OutputPath item) = None"
  then show "processWorkItem item (fs, st) = (fs, st\<lparr>Errors := Errors st + 1\<rparr>)"
    by (simp add: processWorkItem_def os_Stat_def convertToCBZ_def)
qed

theorem no_images_no_archive_witness:
  "analyzeDirectory fs_demo [''in'', ''vol3''] = Inr ([], [''notes.txt''])
   \<and> lookup fs_demo [''in'', ''vol3''] = Some (Dir [(''notes.txt'', File [])])
   \<and> walkable (Dir [(''notes.txt'', File [])])
   \<and> files_under [''in'', ''vol3''] (Dir [(''notes.txt'', File [])]) = [''in'', ''vol3'', ''notes.txt''] # []
   \<and> isImageFile fs_demo [''in'', ''vol3'', ''notes.txt''] = Inr False
   \<and> lookup fs_demo [''out'', ''vol3.cbz''] = None
   \<and> convertToCBZ fs_demo [''in'', ''vol3''] [''out'', ''vol3.cbz'']
       = (Inl (Errorf ''no image files found''), fs_demo)
   \<and> processWorkItem \<lparr>FolderName = ''vol3'', SourcePath = [''in'', ''vol3''],
                       OutputPath = [''out'', ''vol3.cbz'']\<rparr>
        (fs_demo, \<lparr>Total = 4, Success = 0, Errors = 0, Skipped = 0, NonImageFiles = 0\<rparr>)
       = (fs_demo, \<lparr>Total = 4, Success = 0, Errors = 1, Skipped = 0, NonImageFiles = 0\<rparr>)"
proof -
  have l: "lookup fs_demo [''in'', ''vol3''] = Some (Dir [(''notes.txt'', File [])])"
    by (simp add: fs_demo_def)
  have o: "lookup fs_demo [''out'', ''vol3.cbz''] = None"
    by (simp add: fs_demo_def)
  have f: "\<forall>q \<in> set (files_under [''in'', ''vol3''] (Dir [(''notes.txt'', File [])])).
      isImageFile fs_demo q = Inr False"
    by (simp add: demo_notes3)
  from no_images_no_archive
    [of fs_demo "[''in'', ''vol3'']" "[''notes.txt'']" "[''out'', ''vol3.cbz'']"
      "Dir [(''notes.txt'', File [])]"
      "\<lparr>FolderName = ''vol3'', SourcePath = [''in'', ''vol3''], OutputPath = [''out'', ''vol3.cbz'']\<rparr>"
      "\<lparr>Total = 4, Success = 0, Errors = 0, Skipped = 0, NonImageFiles = 0\<rparr>"]
  show ?thesis
    using demo_analyze_vol3 demo_notes3 l o f by simp
qed



text \<open>
  C5. A job whose destination exists when the worker looks for it is skipped on existence
  alone: the Skipped counter goes up by one, nothing else in the statistics changes, and the
  file system, with the archive that is there, is returned as it was, so that nothing is
  scanned into it or built. A run over jobs whose destinations all exist skips every one of
  them and changes no file; and a job that succeeded has left a file at its destination.
\<close>

theorem existing_archive_is_skipped:
  "(os_Stat fs (OutputPath item) = Inr info \<longrightarrow>
      processWorkItem item (fs, st) = (fs, st\<lparr>Skipped := Skipped st + 1\<rparr>))
   \<and> ((\<forall>i \<in> set items. lookup fs (OutputPath i) \<noteq> None) \<longrightarrow>
        fold processWorkItem items (fs, st)
          = (fs, st\<lparr>Skipped := Skipped st + int (length items)\<rparr>))
   \<and> (processWorkItem item (fs, st) = (fs', st') \<and> Success st' = Success st + 1 \<longrightarrow>
        (\<exists>es. lookup fs' (OutputPath item) = Some (Zip es)))"
proof (intro conjI impI)
  assume "os_Stat fs (OutputPath item) = Inr info"
  then show "processWorkItem item (fs, st) = (fs, st\<lparr>Skipped := Skipped st + 1\<rparr>)"
    by (simp add: processWorkItem_def)
next
  assume "\<forall>i \<in> set items. lookup fs (OutputPath i) \<noteq> None"
  then show "fold processWorkItem items (fs, st)
      = (fs, st\<lparr>Skipped := Skipped st + int (length items)\<rparr>)"
    by (rule skip_all_existing)
next
  assume a: "processWorkItem item (fs, st) = (fs', st') \<and> Success st' = Success st + 1"
  then obtain k where c: "convertToCBZ fs (SourcePath item) (OutputPath item) = (Inr k, fs')"
    by (auto simp: processWorkItem_def split: sum.splits prod.splits)
  from convertToCBZ_cases [OF c] obtain fs1 zw where "os_Create fs (OutputPath item) = Inr fs1"
    and "fs' = close_archive fs1 (OutputPath item) zw"
    by auto
  then show "\<exists>es. lookup fs' (OutputPath item) = Some (Zip es)"
    using close_archive_after_create by blast
qed

theorem existing_archive_is_skipped_witness:
  "os_Stat fs_demo [''out'', ''vol4.cbz'']
     = Inr (Zip [\<lparr>Name = ''p.jpg'', Method = Deflate, Content = jpeg_bytes\<rparr>])
   \<and> processWorkItem \<lparr>FolderName = ''vol4'', SourcePath = [''in'', ''vol4''],
                       OutputPath = [''out'', ''vol4.cbz'']\<rparr>
        (fs_demo, \<lparr>Total = 4, Success = 0, Errors = 0, Skipped = 0, NonImageFiles = 0\<rparr>)
       = (fs_demo, \<lparr>Total = 4, Success = 0, Errors = 0, Skipped = 1, NonImageFiles = 0\<rparr>)
   \<and> fold processWorkItem
        [\<lparr>FolderName = ''vol4'', SourcePath = [''in'', ''vol4''], OutputPath = [''out'', ''vol4.cbz'']\<rparr>]
        (fs_demo, \<lparr>Total = 4, Success = 0, Errors = 0, Skipped = 0, NonImageFiles = 0\<rparr>)
       = (fs_demo, \<lparr>Total = 4, Success = 0, Errors = 0, Skipped = 1, NonImageFiles = 0\<rparr>)
   \<and> (\<exists>fs' st'. processWorkItem \<lparr>FolderName = ''vol1'', SourcePath = [''in'', ''vol1''],
                                  OutputPath = [''out'', ''vol1.cbz'']\<rparr>
                   (fs_demo, \<lparr>Total = 4, Success = 0, Errors = 0, Skipped = 0, NonImageFiles = 0\<rparr>)
                  = (fs', st')
        \<and> Success st' = 1 \<and> (\<exists>es. lookup fs' [''out'', ''vol1.cbz''] = Some (Zip es)))"
proof -
  define st0 where "st0 = \<lparr>Total = 4, Success = 0, Errors = 0, Skipped = 0, NonImageFiles = 0\<rparr>"
  define item4 where "item4 = \<lparr>FolderName = ''vol4'', SourcePath = [''in'', ''vol4''],
      OutputPath = [''out'', ''vol4.cbz'']\<rparr>"
  define item1 where "item1 = \<lparr>FolderName = ''vol1'', SourcePath = [''in'', ''vol1''],
      OutputPath = [''out'', ''vol1.cbz'']\<rparr>"
  have s: "os_Stat fs_demo (OutputPath item4)
      = Inr (Zip [\<lparr>Name = ''p.jpg'', Method = Deflate, Content = jpeg_bytes\<rparr>])"
    by (simp add: os_Stat_def fs_demo_def item4_def)
  have e: "\<forall>i \<in> set [item4]. lookup fs_demo (OutputPath i) \<noteq> None"
    by (simp add: fs_demo_def item4_def)
  from demo_convert_vol1 obtain fs1 where
    "convertToCBZ fs_demo [''in'', ''vol1''] [''out'', ''vol1.cbz''] = (Inr 1, fs1)" by blast
  moreover have "os_Stat fs_demo [''out'', ''vol1.cbz''] = Inl ENOENT"
    by (simp add: os_Stat_def demo_fresh del: lookup.simps)
  ultimately have p: "processWorkItem item1 (fs_demo, st0)
      = (fs1, st0\<lparr>Success := Success st0 + 1, NonImageFiles := NonImageFiles st0 + 1\<rparr>)"
    by (simp add: processWorkItem_def item1_def)
  have g: "Success (st0\<lparr>Success := Success st0 + 1, NonImageFiles := NonImageFiles st0 + 1\<rparr>)
      = Success st0 + 1" by simp
  note t4 = existing_archive_is_skipped
    [of fs_demo item4 "Zip [\<lparr>Name = ''p.jpg'', Method = Deflate, Content = jpeg_bytes\<rparr>]" st0
      "[item4]" fs_demo st0]
  note t1 = existing_archive_is_skipped
    [of fs_demo item1 "File []" st0 "[]" fs1
      "st0\<lparr>Success := Success st0 + 1, NonImageFiles := NonImageFiles st0 + 1\<rparr>"]
  from t1 p g have "\<exists>es. lookup fs1 (OutputPath item1) = Some (Zip es)" by blast
  with t4 s e p show ?thesis
    by (simp add: st0_def item4_def item1_def)
qed

text \<open>
  C6. isImageFile sniffs the whole buffer of 512 bytes, not the bytes that were read: a
  readable file of the three bytes 00 00 01 is classified as an image, because the zero
  bytes that follow them in the buffer complete the icon signature 00 00 01 00, while the
  content type of the three bytes read is application/octet-stream, which does not begin
  with image/.
\<close>

theorem isImageFile_sniffs_the_padding:
  "lookup fs_short [''page.dat''] = Some (File [0x00, 0x00, 0x01])
   \<and> file_Read (File [0x00, 0x00, 0x01]) 512 = ([0x00, 0x00, 0x01], None)
   \<and> DetectContentType [0x00, 0x00, 0x01] = ''application/octet-stream''
   \<and> \<not> HasPrefix (DetectContentType [0x00, 0x00, 0x01]) ''image/''
   \<and> DetectContentType (buffer_after [0x00, 0x00, 0x01]) = ''image/x-icon''
   \<and> isImageFile fs_short [''page.dat''] = Inr True"
proof -
  have l: "lookup fs_short [''page.dat''] = Some (File [0x00, 0x00, 0x01])"
    by (simp add: fs_short_def)
  have b: "buffer_after [0x00, 0x00, 0x01] = 0 # 0 # 1 # 0 # replicate 508 0"
    by (simp add: buffer_after_def replicate_pos)
  have "isImageFile fs_short [''page.dat''] = Inr True"
    by (simp add: isImageFile_regular [OF l] b detect_icon HasPrefix_def)
  with l b show ?thesis
    by (simp add: file_Read_def file_bytes_def detect_three_bytes detect_icon HasPrefix_def)
qed

text \<open>
  C7. A scan that succeeds returns the image list sorted by the path strings and the
  non-image list sorted by the base names. Both are fixed by which files lie below the
  folder, whatever the order in which the directories enumerate them: for every listing of
  the files below the folder the path strings of the image list are the sorted path strings
  of the files kept for the archive, and the non-image list is the sorted list of the base
  names of the others. Directories are descended into: every file below the folder, at any
  depth, is in one of the two lists. Directories are not recorded: in a file system whose
  directories have distinct names, every entry of either list is a file that is no
  directory.
\<close>

theorem analyzeDirectory_sorted:
  assumes "analyzeDirectory fs dir = Inr (imgs, nons)"
  shows "\<exists>n. lookup fs dir = Some n
     \<and> sorted (map path_string imgs) \<and> sorted nons
     \<and> (\<forall>qs. mset qs = mset (files_under dir n) \<longrightarrow>
            map path_string imgs = sort (map path_string (filter (kept fs) qs))
          \<and> nons = sort (map Base (filter (\<lambda>q. \<not> kept fs q) qs)))
     \<and> (\<forall>rel m. lookup n rel = Some m \<and> \<not> IsDir m \<longrightarrow>
            (if kept fs (dir @ rel) then dir @ rel \<in> set imgs else Base (dir @ rel) \<in> set nons))
     \<and> (wf_node fs \<longrightarrow>
            (\<forall>q \<in> set imgs. \<exists>m. lookup fs q = Some m \<and> \<not> IsDir m)
          \<and> (\<forall>b \<in> set nons. \<exists>q m. b = Base q \<and> lookup fs q = Some m \<and> \<not> IsDir m))"
proof -
  from analyzeDirectory_Inr [OF assms] obtain n where n: "lookup fs dir = Some n"
    and w: "walkable n"
    and si: "sorted (map path_string imgs)" and sn: "sorted nons"
    and mi: "mset imgs = filter_mset (kept fs) (mset (files_under dir n))"
    and mn: "mset nons = image_mset Base (filter_mset (\<lambda>q. \<not> kept fs q) (mset (files_under dir n)))"
    by blast
  have order: "map path_string imgs = sort (map path_string (filter (kept fs) qs))
      \<and> nons = sort (map Base (filter (\<lambda>q. \<not> kept fs q) qs))"
    if qs: "mset qs = mset (files_under dir n)" for qs
  proof
    have "mset (map path_string imgs) = mset (map path_string (filter (kept fs) qs))"
      by (simp add: mi qs)
    from properties_for_sort [OF this si]
    show "map path_string imgs = sort (map path_string (filter (kept fs) qs))" by simp
    have "mset nons = mset (map Base (filter (\<lambda>q. \<not> kept fs q) qs))"
      by (simp add: mn qs)
    from properties_for_sort [OF this sn]
    show "nons = sort (map Base (filter (\<lambda>q. \<not> kept fs q) qs))" by simp
  qed
  have found: "if kept fs (dir @ rel) then dir @ rel \<in> set imgs else Base (dir @ rel) \<in> set nons"
    if "lookup n rel = Some m \<and> \<not> IsDir m" for rel m
  proof -
    from that w have q: "dir @ rel \<in> set (files_under dir n)"
      by (blast intro: lookup_files_under)
    show ?thesis
    proof (cases "kept fs (dir @ rel)")
      case True
      with q have "dir @ rel \<in># filter_mset (kept fs) (mset (files_under dir n))" by simp
      then have "dir @ rel \<in># mset imgs" by (simp only: mi)
      with True show ?thesis by simp
    next
      case False
      with q have "dir @ rel \<in># filter_mset (\<lambda>q. \<not> kept fs q) (mset (files_under dir n))" by simp
      then have "Base (dir @ rel) \<in># mset nons" unfolding mn by auto
      with False show ?thesis by simp
    qed
  qed
  have files: "(\<forall>q \<in> set imgs. \<exists>m. lookup fs q = Some m \<and> \<not> IsDir m)
      \<and> (\<forall>b \<in> set nons. \<exists>q m. b = Base q \<and> lookup fs q = Some m \<and> \<not> IsDir m)"
    if wf: "wf_node fs"
  proof -
    have wfn: "wf_node n" using wf n by (rule wf_lookup)
    have ex: "\<exists>m. lookup fs q = Some m \<and> \<not> IsDir m" if "q \<in> set (files_under dir n)" for q
    proof -
      from files_under_lookup [OF wfn that] obtain rel m where
        "q = dir @ rel" "lookup n rel = Some m" "\<not> IsDir m" by blast
      with n show ?thesis by (simp add: lookup_append)
    qed
    have "\<exists>m. lookup fs q = Some m \<and> \<not> IsDir m" if "q \<in> set imgs" for q
    proof -
      from that have "q \<in># mset imgs" by simp
      then have "q \<in> set (files_under dir n)" unfolding mi by simp
      then show ?thesis by (rule ex)
    qed
    moreover have "\<exists>q m. b = Base q \<and> lookup fs q = Some m \<and> \<not> IsDir m" if "b \<in> set nons" for b
    proof -
      from that have "b \<in># mset nons" by simp
      then obtain q where "b = Base q" "q \<in> set (files_under dir n)"
        unfolding mn by auto
      with ex show ?thesis by blast
    qed
    ultimately show ?thesis by blast
  qed
  from n si sn order found files show ?thesis by blast
qed

theorem analyzeDirectory_sorted_witness:
  "analyzeDirectory fs_demo [''in'', ''vol1'']
     = Inr ([[''in'', ''vol1'', ''extras'', ''p1.png''], [''in'', ''vol1'', ''p2.jpg'']],
            [''notes.txt''])
   \<and> wf_node fs_demo
   \<and> (\<exists>n. lookup fs_demo [''in'', ''vol1''] = Some n
        \<and> sorted (map path_string [[''in'', ''vol1'', ''extras'', ''p1.png''], [''in'', ''vol1'', ''p2.jpg'']])
        \<and> sorted [''notes.txt'']
        \<and> (\<forall>qs. mset qs = mset (files_under [''in'', ''vol1''] n) \<longrightarrow>
              map path_string [[''in'', ''vol1'', ''extras'', ''p1.png''], [''in'', ''vol1'', ''p2.jpg'']]
                = sort (map path_string (filter (kept fs_demo) qs))
            \<and> [''notes.txt''] = sort (map Base (filter (\<lambda>q. \<not> kept fs_demo q) qs)))
        \<and> (\<forall>q \<in> set [[''in'', ''vol1'', ''extras'', ''p1.png''], [''in'', ''vol1'', ''p2.jpg'']].
              \<exists>m. lookup fs_demo q = Some m \<and> \<not> IsDir m))"
  using analyzeDirectory_sorted [OF demo_analyze_vol1] demo_analyze_vol1 demo_wf
  by blast

text \<open>
  C8. The effective worker count is the requested count clamped to the inclusive range from
  1 to twice the processor count (a machine has at least one processor): a request below 1
  gives 1 worker, a request above twice the processor count gives exactly twice the
  processor count and logs the notice, and a request inside the range is used unchanged,
  without a notice.
\<close>

theorem validateThreads_clamp:
  "1 \<le> numCPU \<Longrightarrow>
     fst (validateThreads t numCPU) = max 1 (min t (2 * numCPU))
     \<and> (t < 1 \<longrightarrow> validateThreads t numCPU = (1, None))
     \<and> (t > 2 * numCPU \<longrightarrow>
          validateThreads t numCPU = (2 * numCPU, Some (Thread_count_limited (2 * numCPU))))
     \<and> (1 \<le> t \<and> t \<le> 2 * numCPU \<longrightarrow> validateThreads t numCPU = (t, None))"
  by (auto simp: validateThreads_def)

theorem validateThreads_clamp_witness:
  "(1::int) \<le> 8 \<and> validateThreads 0 8 = (1, None)
   \<and> validateThreads 100 8 = (16, Some (Thread_count_limited 16))
   \<and> validateThreads 16 8 = (16, None) \<and> validateThreads 4 8 = (4, None)"
proof -
  have h: "(1::int) \<le> 8" by simp
  show ?thesis
    using validateThreads_clamp [OF h, of 0] validateThreads_clamp [OF h, of 100]
      validateThreads_clamp [OF h, of 16] validateThreads_clamp [OF h, of 4]
    by simp
qed

text \<open>
  C9. The report never divides by zero: it always returns its lines. The success-rate line
  is produced exactly when succeeded + failed is positive, and it then carries
  succeeded / (succeeded + failed) * 100; when succeeded + failed is not positive (every
  job skipped, or no job) the report has no success-rate line.
\<close>

theorem printFinalStats_no_division_by_zero:
  "\<exists>ls. printFinalStats stats = Inr ls
     \<and> ((\<exists>l \<in> set ls. is_rate_line l) \<longleftrightarrow> Success stats + Errors stats > 0)
     \<and> (Success stats + Errors stats > 0 \<longrightarrow>
          last ls = Info_success_rate
            (real_of_int (Success stats) / real_of_int (Success stats + Errors stats) * 100)
          \<and> length (filter is_rate_line ls) = 1)"
  by (auto simp: printFinalStats_def rate_def is_rate_line_def Let_def)

theorem printFinalStats_no_division_by_zero_witness:
  "printFinalStats \<lparr>Total = 4, Success = 3, Errors = 1, Skipped = 0, NonImageFiles = 0\<rparr>
     = Inr [Info_completed, Info_total 4, OK_successful 3, Error_errors 1, Info_success_rate 75]
   \<and> printFinalStats \<lparr>Total = 2, Success = 0, Errors = 0, Skipped = 2, NonImageFiles = 0\<rparr>
     = Inr [Info_completed, Info_total 2, OK_successful 0, Warn_skipped 2]"
  using printFinalStats_no_division_by_zero
    [of "\<lparr>Total = 4, Success = 3, Errors = 1, Skipped = 0, NonImageFiles = 0\<rparr>"]
    printFinalStats_no_division_by_zero
    [of "\<lparr>Total = 2, Success = 0, Errors = 0, Skipped = 2, NonImageFiles = 0\<rparr>"]
  by (simp add: printFinalStats_def rate_def)

text \<open>
  C10. When the build of the archive fails after the destination file was created (a file
  of the image list cannot be opened, or copying it into its member fails), the error path
  removes nothing: the destination holds the archive with the members written so far. The
  destination therefore exists after the failed job, and a later job for the same
  destination is skipped instead of converting the folder again.
\<close>

theorem failed_build_leaves_archive:
  assumes "convertToCBZ fs src cbz = (Inl (Wrapf ''failed to add file to archive: '' err), fs')"
  shows "(\<exists>zw. lookup fs' cbz = Some (Zip zw))
     \<and> (OutputPath item = cbz \<longrightarrow>
          processWorkItem item (fs', st) = (fs', st\<lparr>Skipped := Skipped st + 1\<rparr>))"
proof -
  from convertToCBZ_cases [OF assms] obtain fs1 zw where "os_Create fs cbz = Inr fs1"
    and "fs' = close_archive fs1 cbz zw"
    by auto
  then have "lookup fs' cbz = Some (Zip zw)"
    using close_archive_after_create by blast
  then show ?thesis
    by (auto simp: skip_existing)
qed

theorem failed_build_leaves_archive_witness:
  "\<exists>fs'. convertToCBZ fs_demo [''in'', ''vol2''] [''out'', ''vol2.cbz'']
            = (Inl (Wrapf ''failed to add file to archive: '' EIO), fs')
     \<and> (\<exists>zw. lookup fs' [''out'', ''vol2.cbz''] = Some (Zip zw))
     \<and> processWorkItem \<lparr>FolderName = ''vol2'', SourcePath = [''in'', ''vol2''],
                         OutputPath = [''out'', ''vol2.cbz'']\<rparr>
          (fs', \<lparr>Total = 4, Success = 0, Errors = 1, Skipped = 0, NonImageFiles = 0\<rparr>)
         = (fs', \<lparr>Total = 4, Success = 0, Errors = 1, Skipped = 1, NonImageFiles = 0\<rparr>)"
proof -
  from demo_convert_vol2 obtain fs' where
    c: "convertToCBZ fs_demo [''in'', ''vol2''] [''out'', ''vol2.cbz'']
          = (Inl (Wrapf ''failed to add file to archive: '' EIO), fs')" ..
  from failed_build_leaves_archive
    [OF c, of "\<lparr>FolderName = ''vol2'', SourcePath = [''in'', ''vol2''],
                OutputPath = [''out'', ''vol2.cbz'']\<rparr>"
      "\<lparr>Total = 4, Success = 0, Errors = 1, Skipped = 0, NonImageFiles = 0\<rparr>"]
  have "(\<exists>zw. lookup fs' [''out'', ''vol2.cbz''] = Some (Zip zw))
     \<and> processWorkItem \<lparr>FolderName = ''vol2'', SourcePath = [''in'', ''vol2''],
                         OutputPath = [''out'', ''vol2.cbz'']\<rparr>
          (fs', \<lparr>Total = 4, Success = 0, Errors = 1, Skipped = 0, NonImageFiles = 0\<rparr>)
         = (fs', \<lparr>Total = 4, Success = 0, Errors = 1, Skipped = 1, NonImageFiles = 0\<rparr>)"
    by simp
  with c show ?thesis by blast
qed

end
